theory Spec2Isabelle
  imports Complex_Main "HOL-Library.Multiset" "HOL-Library.Sublist"
begin

section \<open>Single-precision floating point\<close>

text \<open>
  The program computes with C++ \<^verbatim>\<open>float\<close> (IEEE 754 binary32, round to nearest, ties to
  even). A value is a NaN, an infinity, the negative zero, or a finite real; \<open>Fin 0\<close>
  is the positive zero. Every arithmetic operation computes the exact real result and
  rounds it with \<open>round32\<close>, so overflow to an infinity, underflow to a (signed) zero and
  the rounding error of each single operation are part of the model.
\<close>

datatype f32 = NaN | PInf | NInf | NZero | Fin real

fun val :: "f32 \<Rightarrow> real" where
  "val (Fin r) = r"
| "val _ = 0"

fun signbit :: "f32 \<Rightarrow> bool" where
  "signbit NInf = True"
| "signbit NZero = True"
| "signbit (Fin r) = (r < 0)"
| "signbit _ = False"

fun rank :: "f32 \<Rightarrow> int" where
  "rank NInf = - 1"
| "rank PInf = 1"
| "rank _ = 0"

definition is_inf :: "f32 \<Rightarrow> bool" where
  "is_inf a = (a = PInf \<or> a = NInf)"

definition is_zero :: "f32 \<Rightarrow> bool" where
  "is_zero a = (a = NZero \<or> a = Fin 0)"

definition inf_of :: "bool \<Rightarrow> f32" where
  "inf_of sg = (if sg then NInf else PInf)"

definition zero_of :: "bool \<Rightarrow> f32" where
  "zero_of sg = (if sg then NZero else Fin 0)"

definition is_finite :: "f32 \<Rightarrow> bool" where
  "is_finite a = (a \<noteq> NaN \<and> \<not> is_inf a)"

text \<open>The comparisons \<^verbatim>\<open><\<close>, \<^verbatim>\<open><=\<close> and \<^verbatim>\<open>>\<close>: false as soon as one side is a NaN; the two
  zeros compare equal.\<close>

definition flt :: "f32 \<Rightarrow> f32 \<Rightarrow> bool" where
  "flt a b = (a \<noteq> NaN \<and> b \<noteq> NaN \<and> (rank a < rank b \<or> rank a = rank b \<and> val a < val b))"

definition fle :: "f32 \<Rightarrow> f32 \<Rightarrow> bool" where
  "fle a b = (a \<noteq> NaN \<and> b \<noteq> NaN \<and> (rank a < rank b \<or> rank a = rank b \<and> val a \<le> val b))"

definition fgt :: "f32 \<Rightarrow> f32 \<Rightarrow> bool" where
  "fgt a b = flt b a"

text \<open>Rounding. A binary32 number is an integer multiple of \<open>2 ^ -149\<close>; scaled by
  \<open>2 ^ 149\<close>, the numbers below \<open>2 ^ 24\<close> are spaced by 1 (subnormals and the first
  binade), and the spacing doubles with every further binade: \<open>ulp_of\<close> is that spacing.
  \<open>rne\<close> rounds a real to the nearest integer, a tie to the even one.\<close>

fun ulp_of :: "nat \<Rightarrow> nat" where
  "ulp_of n = (if n < 2 ^ 24 then 1 else 2 * ulp_of (n div 2))"

declare ulp_of.simps [simp del]

definition rne :: "real \<Rightarrow> int" where
  "rne q = (let f = \<lfloor>q\<rfloor>; d = q - of_int f in
     if d < 1 / 2 then f else if 1 / 2 < d then f + 1 else if even f then f else f + 1)"

definition ulp_scaled :: "real \<Rightarrow> real" where
  "ulp_scaled x = real (ulp_of (nat \<lfloor>x * 2 ^ 149\<rfloor>))"

definition round_mag :: "real \<Rightarrow> real" where
  "round_mag x = of_int (rne (x * 2 ^ 149 / ulp_scaled x)) * ulp_scaled x / 2 ^ 149"

text \<open>\<open>round32 sg x\<close> is the binary32 value of the exact result \<open>x\<close>; \<open>sg\<close> is the sign
  given to an exact zero.\<close>

definition round32 :: "bool \<Rightarrow> real \<Rightarrow> f32" where
  "round32 sg x = (let m = round_mag \<bar>x\<bar> in
     if 2 ^ 128 \<le> m then inf_of (x < 0)
     else if m = 0 then zero_of (if x = 0 then sg else x < 0)
     else Fin (if x < 0 then - m else m))"

definition fneg :: "f32 \<Rightarrow> f32" where
  "fneg a = (case a of NaN \<Rightarrow> NaN | PInf \<Rightarrow> NInf | NInf \<Rightarrow> PInf | NZero \<Rightarrow> Fin 0
     | Fin r \<Rightarrow> if r = 0 then NZero else Fin (- r))"

definition fadd :: "f32 \<Rightarrow> f32 \<Rightarrow> f32" where
  "fadd a b =
     (if a = NaN \<or> b = NaN then NaN
      else if is_inf a then (if is_inf b \<and> a \<noteq> b then NaN else a)
      else if is_inf b then b
      else round32 (signbit a \<and> signbit b) (val a + val b))"

definition fsub :: "f32 \<Rightarrow> f32 \<Rightarrow> f32" where
  "fsub a b = fadd a (fneg b)"

definition fmul :: "f32 \<Rightarrow> f32 \<Rightarrow> f32" where
  "fmul a b =
     (if a = NaN \<or> b = NaN then NaN
      else if is_inf a \<or> is_inf b then
        (if is_zero a \<or> is_zero b then NaN else inf_of (signbit a \<noteq> signbit b))
      else round32 (signbit a \<noteq> signbit b) (val a * val b))"

definition fdiv :: "f32 \<Rightarrow> f32 \<Rightarrow> f32" where
  "fdiv a b =
     (if a = NaN \<or> b = NaN then NaN
      else if is_inf a then (if is_inf b then NaN else inf_of (signbit a \<noteq> signbit b))
      else if is_inf b then zero_of (signbit a \<noteq> signbit b)
      else if is_zero b then (if is_zero a then NaN else inf_of (signbit a \<noteq> signbit b))
      else round32 (signbit a \<noteq> signbit b) (val a / val b))"

text \<open>Conversions between \<^verbatim>\<open>int\<close> (32 bits) and \<^verbatim>\<open>float\<close>. The conversion to \<^verbatim>\<open>int\<close>
  truncates toward zero; it is undefined in C++ for a NaN, an infinity and a value
  whose truncation is not an \<^verbatim>\<open>int\<close>, which is \<open>None\<close> here.\<close>

definition float_of_int :: "int \<Rightarrow> f32" where
  "float_of_int n = round32 False (of_int n)"

definition int_of_float :: "f32 \<Rightarrow> int option" where
  "int_of_float a =
     (if a = NaN \<or> is_inf a then None
      else let t = (if val a < 0 then \<lceil>val a\<rceil> else \<lfloor>val a\<rfloor>)
           in if - (2 ^ 31) \<le> t \<and> t < 2 ^ 31 then Some t else None)"

text \<open>\<^verbatim>\<open>std::min(a, b)\<close> is \<^verbatim>\<open>(b < a) ? b : a\<close> and \<^verbatim>\<open>std::max(a, b)\<close> is
  \<^verbatim>\<open>(a < b) ? b : a\<close>.\<close>

definition std_min :: "f32 \<Rightarrow> f32 \<Rightarrow> f32" where
  "std_min a b = (if flt b a then b else a)"

definition std_max :: "f32 \<Rightarrow> f32 \<Rightarrow> f32" where
  "std_max a b = (if flt a b then b else a)"

text \<open>The values a \<^verbatim>\<open>float\<close> variable can hold: a finite one is a binary32 number.\<close>

definition is_f32 :: "f32 \<Rightarrow> bool" where
  "is_f32 a = (case a of Fin r \<Rightarrow> round32 False r = Fin r | _ \<Rightarrow> True)"

section \<open>Rectangles and detections\<close>

text \<open>\<^verbatim>\<open>cv::Rect_<float>\<close> and \<^verbatim>\<open>struct Object\<close>.\<close>

record Rect =
  rect_x :: f32
  rect_y :: f32
  rect_width :: f32
  rect_height :: f32

record Object =
  rect :: Rect
  label :: int
  prob :: f32

text \<open>Modelled from the spec: the area and the intersection of rectangles are OpenCV's
  (\<^verbatim>\<open>Rect_::area\<close>, \<^verbatim>\<open>Rect_::empty\<close> and \<^verbatim>\<open>operator&\<close> of the version the build
  instructions fetch); the library is not part of the repository. The area is
  \<^verbatim>\<open>width * height\<close>, a rectangle is empty when its width or height is \<^verbatim>\<open><= 0\<close>, the
  default rectangle is all zero, and the intersection of two rectangles is the default
  rectangle as soon as one of them or the overlap is empty.\<close>

definition Rect0 :: Rect where
  "Rect0 = \<lparr>rect_x = Fin 0, rect_y = Fin 0, rect_width = Fin 0, rect_height = Fin 0\<rparr>"

definition rect_area :: "Rect \<Rightarrow> f32" where
  "rect_area r = fmul (rect_width r) (rect_height r)"

definition rect_empty :: "Rect \<Rightarrow> bool" where
  "rect_empty r = (fle (rect_width r) (Fin 0) \<or> fle (rect_height r) (Fin 0))"

definition rect_and :: "Rect \<Rightarrow> Rect \<Rightarrow> Rect" where
  "rect_and a b =
     (if rect_empty a \<or> rect_empty b then Rect0
      else
        let Rx_min = (if flt (rect_x a) (rect_x b) then a else b);
            Rx_max = (if flt (rect_x a) (rect_x b) then b else a);
            Ry_min = (if flt (rect_y a) (rect_y b) then a else b);
            Ry_max = (if flt (rect_y a) (rect_y b) then b else a)
        in
          if (flt (rect_x Rx_min) (Fin 0)
                \<and> flt (fadd (rect_x Rx_min) (rect_width Rx_min)) (rect_x Rx_max))
             \<or> (flt (rect_y Ry_min) (Fin 0)
                \<and> flt (fadd (rect_y Ry_min) (rect_height Ry_min)) (rect_y Ry_max))
          then Rect0
          else
            let r = \<lparr>rect_x = rect_x Rx_max, rect_y = rect_y Ry_max,
                     rect_width = std_min (fsub (rect_width Rx_min)
                                    (fsub (rect_x Rx_max) (rect_x Rx_min))) (rect_width Rx_max),
                     rect_height = std_min (fsub (rect_height Ry_min)
                                    (fsub (rect_y Ry_max) (rect_y Ry_min))) (rect_height Ry_max)\<rparr>
            in if rect_empty r then Rect0 else r)"

definition intersection_area :: "Object \<Rightarrow> Object \<Rightarrow> f32" where
  "intersection_area a b = rect_area (rect_and (rect a) (rect b))"

section \<open>The Sorter\<close>

text \<open>Indices are C++ \<^verbatim>\<open>int\<close>s: \<open>j\<close> may leave the loop as \<open>left - 1\<close>. Reading
  \<^verbatim>\<open>objects[k]\<close> outside the vector is undefined in C++ and \<open>None\<close> here; \<open>c_div\<close> is the
  division of \<^verbatim>\<open>int\<close>s, which truncates toward zero.\<close>

definition c_div :: "int \<Rightarrow> int \<Rightarrow> int" where
  "c_div a b = sgn a * sgn b * (\<bar>a\<bar> div \<bar>b\<bar>)"

definition in_range :: "'a list \<Rightarrow> int \<Rightarrow> bool" where
  "in_range xs k = (0 \<le> k \<and> k < int (length xs))"

definition swap :: "'a list \<Rightarrow> int \<Rightarrow> int \<Rightarrow> 'a list" where
  "swap xs i j = xs[nat i := xs ! nat j, nat j := xs ! nat i]"

text \<open>\<^verbatim>\<open>while (objects[i].prob > p) i++;\<close>\<close>

function scan_up :: "Object list \<Rightarrow> f32 \<Rightarrow> int \<Rightarrow> int option" where
  "scan_up objects p i =
     (if \<not> in_range objects i then None
      else if fgt (prob (objects ! nat i)) p then scan_up objects p (i + 1)
      else Some i)"
  by pat_completeness auto

termination
  by (relation "measure (\<lambda>(objects, p, i). nat (int (length objects) - i))")
     (auto simp: in_range_def)

text \<open>\<^verbatim>\<open>while (objects[j].prob < p) j--;\<close>\<close>

function scan_down :: "Object list \<Rightarrow> f32 \<Rightarrow> int \<Rightarrow> int option" where
  "scan_down objects p j =
     (if \<not> in_range objects j then None
      else if flt (prob (objects ! nat j)) p then scan_down objects p (j - 1)
      else Some j)"
  by pat_completeness auto

termination
  by (relation "measure (\<lambda>(objects, p, j). nat (j + 1))") (auto simp: in_range_def)

declare scan_up.simps [simp del] scan_down.simps [simp del]

lemma scan_up_ge: "scan_up objects p i = Some i' \<Longrightarrow> i \<le> i'"
proof (induction objects p i rule: scan_up.induct)
  case (1 objects p i)
  from "1.prems" show ?case
    by (subst (asm) scan_up.simps) (use "1.IH" in \<open>auto split: if_splits\<close>)
qed

lemma scan_down_le: "scan_down objects p j = Some j' \<Longrightarrow> j' \<le> j"
proof (induction objects p j rule: scan_down.induct)
  case (1 objects p j)
  from "1.prems" show ?case
    by (subst (asm) scan_down.simps) (use "1.IH" in \<open>auto split: if_splits\<close>)
qed

text \<open>The partition loop \<^verbatim>\<open>while (i <= j) { ... }\<close>; it returns the vector and the final
  \<open>i\<close> and \<open>j\<close>.\<close>

function partition_loop ::
  "Object list \<Rightarrow> f32 \<Rightarrow> int \<Rightarrow> int \<Rightarrow> (Object list \<times> int \<times> int) option" where
  "partition_loop objects p i j =
     (if i \<le> j then
        (case scan_up objects p i of
           None \<Rightarrow> None
         | Some i' \<Rightarrow>
             (case scan_down objects p j of
                None \<Rightarrow> None
              | Some j' \<Rightarrow>
                  if i' \<le> j' then partition_loop (swap objects i' j') p (i' + 1) (j' - 1)
                  else partition_loop objects p i' j'))
      else Some (objects, i, j))"
  by pat_completeness auto

termination
proof (relation "measure (\<lambda>(objects, p, i, j). nat (j - i + 1))", goal_cases)
  case 1
  show ?case by simp
next
  case (2 objects p i j i' j')
  then show ?case using scan_up_ge [of objects p i i'] scan_down_le [of objects p j j']
    by simp
next
  case (3 objects p i j i' j')
  then show ?case by simp
qed

declare partition_loop.simps [simp del]

lemma flt_irrefl [simp]: "\<not> flt a a"
  by (simp add: flt_def)

lemma fgt_irrefl [simp]: "\<not> fgt a a"
  by (simp add: fgt_def)

lemma scan_up_stop:
  "scan_up objects p i = Some i' \<Longrightarrow> i \<le> k \<Longrightarrow> \<not> fgt (prob (objects ! nat k)) p \<Longrightarrow> i' \<le> k"
proof (induction objects p i rule: scan_up.induct)
  case (1 objects p i)
  show ?case
  proof (cases "fgt (prob (objects ! nat i)) p")
    case True
    then have "i \<noteq> k" using "1.prems"(3) by auto
    then have "i + 1 \<le> k" using "1.prems"(2) by simp
    moreover have "scan_up objects p (i + 1) = Some i'"
      using "1.prems"(1) True by (subst (asm) scan_up.simps) (auto split: if_splits)
    moreover have "in_range objects i"
      using "1.prems"(1) by (subst (asm) scan_up.simps) (auto split: if_splits)
    ultimately show ?thesis using "1.IH" True "1.prems"(3) by simp
  next
    case False
    then have "i' = i"
      using "1.prems"(1) by (subst (asm) scan_up.simps) (auto split: if_splits)
    then show ?thesis using "1.prems"(2) by simp
  qed
qed

lemma scan_down_stop:
  "scan_down objects p j = Some j' \<Longrightarrow> k \<le> j \<Longrightarrow> \<not> flt (prob (objects ! nat k)) p \<Longrightarrow> k \<le> j'"
proof (induction objects p j rule: scan_down.induct)
  case (1 objects p j)
  show ?case
  proof (cases "flt (prob (objects ! nat j)) p")
    case True
    then have "j \<noteq> k" using "1.prems"(3) by auto
    then have "k \<le> j - 1" using "1.prems"(2) by simp
    moreover have "scan_down objects p (j - 1) = Some j'"
      using "1.prems"(1) True by (subst (asm) scan_down.simps) (auto split: if_splits)
    moreover have "in_range objects j"
      using "1.prems"(1) by (subst (asm) scan_down.simps) (auto split: if_splits)
    ultimately show ?thesis using "1.IH" True "1.prems"(3) by simp
  next
    case False
    then have "j' = j"
      using "1.prems"(1) by (subst (asm) scan_down.simps) (auto split: if_splits)
    then show ?thesis using "1.prems"(2) by simp
  qed
qed

lemma partition_loop_mono:
  "partition_loop objects p i j = Some (ys, i', j') \<Longrightarrow> i \<le> i' \<and> j' \<le> j"
proof (induction objects p i j rule: partition_loop.induct)
  case (1 objects p i j)
  show ?case
  proof (cases "i \<le> j")
    case False
    then show ?thesis using "1.prems" by (subst (asm) partition_loop.simps) simp
  next
    case True
    from "1.prems" True obtain i1 j1 where
      su: "scan_up objects p i = Some i1" and sd: "scan_down objects p j = Some j1"
      by (subst (asm) partition_loop.simps) (auto split: option.splits)
    have b: "i \<le> i1" "j1 \<le> j" using su sd scan_up_ge scan_down_le by blast+
    show ?thesis
    proof (cases "i1 \<le> j1")
      case sw: True
      then have "partition_loop (swap objects i1 j1) p (i1 + 1) (j1 - 1) = Some (ys, i', j')"
        using "1.prems" True su sd by (subst (asm) partition_loop.simps) simp
      then have "i1 + 1 \<le> i' \<and> j' \<le> j1 - 1" using "1.IH"(1) True su sd sw by blast
      then show ?thesis using b by simp
    next
      case nsw: False
      then have "partition_loop objects p i1 j1 = Some (ys, i', j')"
        using "1.prems" True su sd by (subst (asm) partition_loop.simps) simp
      then have "i1 \<le> i' \<and> j' \<le> j1" using "1.IH"(2) True su sd nsw by blast
      then show ?thesis using b by simp
    qed
  qed
qed

lemma partition_loop_progress:
  assumes "partition_loop objects (prob (objects ! nat m)) left right = Some (ys, i', j')"
    and "left \<le> m" "m \<le> right"
  shows "left < i' \<and> j' < right"
proof -
  let ?p = "prob (objects ! nat m)"
  have lr: "left \<le> right" using assms by simp
  from assms(1) lr obtain i1 j1 where
    su: "scan_up objects ?p left = Some i1" and sd: "scan_down objects ?p right = Some j1"
    by (subst (asm) partition_loop.simps) (auto split: option.splits)
  have "i1 \<le> m" using scan_up_stop [OF su assms(2)] by simp
  moreover have "m \<le> j1" using scan_down_stop [OF sd assms(3)] by simp
  ultimately have sw: "i1 \<le> j1" by simp
  then have "partition_loop (swap objects i1 j1) ?p (i1 + 1) (j1 - 1) = Some (ys, i', j')"
    using assms(1) lr su sd by (subst (asm) partition_loop.simps) simp
  then have "i1 + 1 \<le> i' \<and> j' \<le> j1 - 1" by (rule partition_loop_mono)
  moreover have "left \<le> i1" "j1 \<le> right" using su sd scan_up_ge scan_down_le by blast+
  ultimately show ?thesis by simp
qed

lemma c_div_2_between:
  assumes "left < right"
  shows "left \<le> c_div (left + right) 2 \<and> c_div (left + right) 2 \<le> right"
proof (cases "0 \<le> left + right")
  case True
  then show ?thesis using assms by (auto simp: c_div_def sgn_if)
next
  case False
  then show ?thesis using assms by (auto simp: c_div_def sgn_if)
qed

text \<open>\<^verbatim>\<open>qsort_descent_inplace(objects, left, right)\<close>. The two recursive calls are OpenMP
  sections; they work on the disjoint index ranges \<open>left..j\<close> and \<open>i..right\<close> (\<open>j < i\<close>) of
  the shared vector, so running them one after the other gives the vector that running
  them in parallel gives.\<close>

function qsort_descent_inplace_range :: "Object list \<Rightarrow> int \<Rightarrow> int \<Rightarrow> Object list option" where
  "qsort_descent_inplace_range objects left right =
     (if \<not> in_range objects (c_div (left + right) 2) then None
      else
        (case partition_loop objects (prob (objects ! nat (c_div (left + right) 2))) left right of
           None \<Rightarrow> None
         | Some (objects1, i, j) \<Rightarrow>
             (case (if left < j then qsort_descent_inplace_range objects1 left j
                    else Some objects1) of
                None \<Rightarrow> None
              | Some objects2 \<Rightarrow>
                  if i < right then qsort_descent_inplace_range objects2 i right
                  else Some objects2)))"
  by pat_completeness auto

termination
proof (relation "measure (\<lambda>(objects, left, right). nat (right - left))", goal_cases)
  case 1
  show ?case by simp
next
  case (2 objects left right x2 objects1 y i j)
  then have pl: "partition_loop objects (prob (objects ! nat (c_div (left + right) 2))) left right
      = Some (objects1, i, j)" by simp
  have "j \<le> right" using partition_loop_mono [OF pl] by simp
  then have lr: "left < right" using 2 by simp
  have "j < right" using partition_loop_progress [OF pl] c_div_2_between [OF lr] by simp
  then show ?case using 2 by simp
next
  case (3 objects left right x2 objects1 y i j objects2)
  then have pl: "partition_loop objects (prob (objects ! nat (c_div (left + right) 2))) left right
      = Some (objects1, i, j)" by simp
  have "left \<le> i" using partition_loop_mono [OF pl] by simp
  then have lr: "left < right" using 3 by simp
  have "left < i" using partition_loop_progress [OF pl] c_div_2_between [OF lr] by simp
  then show ?case using 3 by simp
qed

declare qsort_descent_inplace_range.simps [simp del]

text \<open>\<^verbatim>\<open>qsort_descent_inplace(objects)\<close>\<close>

definition qsort_descent_inplace :: "Object list \<Rightarrow> Object list option" where
  "qsort_descent_inplace objects =
     (if objects \<noteq> [] then qsort_descent_inplace_range objects 0 (int (length objects) - 1)
      else Some objects)"

section \<open>The NMS Filter\<close>

text \<open>The body of the inner loop: whether the kept candidate \<open>j\<close> clears \<^verbatim>\<open>keep\<close> for the
  candidate \<open>i\<close>. \<open>union_area\<close> is the denominator of the division.\<close>

definition union_area :: "Object list \<Rightarrow> f32 list \<Rightarrow> nat \<Rightarrow> nat \<Rightarrow> f32" where
  "union_area faceobjects areas i j =
     fsub (fadd (areas ! i) (areas ! j))
       (intersection_area (faceobjects ! i) (faceobjects ! j))"

definition suppresses :: "Object list \<Rightarrow> f32 list \<Rightarrow> f32 \<Rightarrow> bool \<Rightarrow> nat \<Rightarrow> nat \<Rightarrow> bool" where
  "suppresses faceobjects areas nms_threshold agnostic i j =
     (if \<not> agnostic \<and> label (faceobjects ! i) \<noteq> label (faceobjects ! j) then False
      else fgt (fdiv (intersection_area (faceobjects ! i) (faceobjects ! j))
                 (union_area faceobjects areas i j)) nms_threshold)"

definition nms_keep :: "Object list \<Rightarrow> f32 list \<Rightarrow> f32 \<Rightarrow> bool \<Rightarrow> nat \<Rightarrow> nat list \<Rightarrow> bool" where
  "nms_keep faceobjects areas nms_threshold agnostic i picked =
     fold (\<lambda>j keep. if suppresses faceobjects areas nms_threshold agnostic i j then False
                      else keep) picked True"

definition nms_step :: "Object list \<Rightarrow> f32 list \<Rightarrow> f32 \<Rightarrow> bool \<Rightarrow> nat \<Rightarrow> nat list \<Rightarrow> nat list" where
  "nms_step faceobjects areas nms_threshold agnostic i picked =
     (if nms_keep faceobjects areas nms_threshold agnostic i picked then picked @ [i]
      else picked)"

definition nms_sorted_bboxes :: "Object list \<Rightarrow> f32 \<Rightarrow> bool \<Rightarrow> nat list" where
  "nms_sorted_bboxes faceobjects nms_threshold agnostic =
     fold (nms_step faceobjects (map (\<lambda>ob. rect_area (rect ob)) faceobjects)
             nms_threshold agnostic)
       [0..<length faceobjects] []"

section \<open>The Decoder\<close>

definition clampf :: "f32 \<Rightarrow> f32 \<Rightarrow> f32 \<Rightarrow> f32" where
  "clampf d mn mx = std_max mn (std_min mx d)"

text \<open>\<^verbatim>\<open>std::max_element\<close> over a non-empty range: the index of the first element that no
  later element exceeds in the scan (\<^verbatim>\<open>if (*largest < *first) largest = first\<close>).\<close>

fun max_element_from :: "f32 list \<Rightarrow> nat \<Rightarrow> f32 \<Rightarrow> nat \<Rightarrow> nat" where
  "max_element_from [] first best largest = largest"
| "max_element_from (c # cs) first best largest =
     (if flt best c then max_element_from cs (Suc first) c first
      else max_element_from cs (Suc first) best largest)"

definition max_element :: "f32 list \<Rightarrow> nat" where
  "max_element cls = (case cls of [] \<Rightarrow> 0 | c # cs \<Rightarrow> max_element_from cs 1 c 0)"

text \<open>Row \<open>i\<close> of the transposed \<^verbatim>\<open>num_channels x num_anchors\<close> matrix over the buffer.\<close>

definition output_row :: "f32 list \<Rightarrow> nat \<Rightarrow> nat \<Rightarrow> nat \<Rightarrow> f32 list" where
  "output_row inputs num_channels num_anchors i =
     map (\<lambda>c. inputs ! (c * num_anchors + i)) [0..<num_channels]"

definition class_scores :: "f32 list \<Rightarrow> nat \<Rightarrow> f32 list" where
  "class_scores row num_labels = take num_labels (drop 4 row)"

text \<open>The corners \<open>(x0, y0, x1, y1)\<close> of a row's box, clamped to the padded input.\<close>

definition box_corners :: "f32 list \<Rightarrow> int \<Rightarrow> int \<Rightarrow> f32 \<times> f32 \<times> f32 \<times> f32" where
  "box_corners bbox img_w img_h =
     (let x = bbox ! 0; y = bbox ! 1; w = bbox ! 2; h = bbox ! 3
      in (clampf (fsub x (fmul (Fin (1 / 2)) w)) (Fin 0) (float_of_int img_w),
          clampf (fsub y (fmul (Fin (1 / 2)) h)) (Fin 0) (float_of_int img_h),
          clampf (fadd x (fmul (Fin (1 / 2)) w)) (Fin 0) (float_of_int img_w),
          clampf (fadd y (fmul (Fin (1 / 2)) h)) (Fin 0) (float_of_int img_h)))"

text \<open>The body of the loop over the anchors: the candidate of one row, if any.\<close>

definition decode_row :: "f32 list \<Rightarrow> f32 \<Rightarrow> nat \<Rightarrow> int \<Rightarrow> int \<Rightarrow> Object option" where
  "decode_row row conf_thres num_labels img_w img_h =
     (let cls = class_scores row num_labels;
          max_cls = max_element cls;
          score = cls ! max_cls
      in if fgt score conf_thres then
           (case box_corners row img_w img_h of (x0, y0, x1, y1) \<Rightarrow>
              Some \<lparr>rect = \<lparr>rect_x = x0, rect_y = y0,
                             rect_width = fsub x1 x0, rect_height = fsub y1 y0\<rparr>,
                    label = int max_cls, prob = score\<rparr>)
         else None)"

text \<open>One iteration of the loop over the anchors: the class scores of anchor \<open>i\<close> and
  its candidate.\<close>

definition anchor_scores :: "f32 list \<Rightarrow> int \<Rightarrow> int \<Rightarrow> int \<Rightarrow> nat \<Rightarrow> f32 list" where
  "anchor_scores inputs num_channels num_anchors num_labels i =
     class_scores (output_row inputs (nat num_channels) (nat num_anchors) i) (nat num_labels)"

definition decode_anchor ::
  "f32 list \<Rightarrow> f32 \<Rightarrow> int \<Rightarrow> int \<Rightarrow> int \<Rightarrow> int \<Rightarrow> int \<Rightarrow> nat \<Rightarrow> Object option" where
  "decode_anchor inputs conf_thres num_channels num_anchors num_labels img_w img_h i =
     decode_row (output_row inputs (nat num_channels) (nat num_anchors) i)
       conf_thres (nat num_labels) img_w img_h"

text \<open>\<^verbatim>\<open>parse_yolov11_detections\<close>. With no anchor (\<^verbatim>\<open>num_anchors <= 0\<close>, as for the empty
  tensor that a failed extraction leaves) the loop body never runs, nothing is read and
  the result is the empty list, whatever the other arguments are. With an anchor, the
  function reads the whole buffer, \<^verbatim>\<open>row[0..3]\<close> and \<^verbatim>\<open>row[4 .. 4 + num_labels - 1]\<close> of
  every row, and \<^verbatim>\<open>*max_cls\<close> even when the range of scores is empty; \<open>None\<close> stands for
  the calls on which such a read is outside the row or the buffer.\<close>

definition parse_yolov11_detections ::
  "f32 list \<Rightarrow> f32 \<Rightarrow> int \<Rightarrow> int \<Rightarrow> int \<Rightarrow> int \<Rightarrow> int \<Rightarrow> Object list option" where
  "parse_yolov11_detections inputs conf_thres num_channels num_anchors num_labels img_w img_h =
     (if 0 < num_anchors \<and> (num_labels < 1 \<or> num_channels < 4 + num_labels
         \<or> int (length inputs) < num_channels * num_anchors)
      then None
      else Some (List.map_filter
             (decode_anchor inputs conf_thres num_channels num_anchors num_labels img_w img_h)
             [0..<nat num_anchors]))"

section \<open>Detection\<close>

definition target_size :: int where
  "target_size = 480"

definition MAX_STRIDE :: int where
  "MAX_STRIDE = 32"

text \<open>The letterbox transform of \<^verbatim>\<open>detect\<close>: the scale, the resized width and height
  and the two paddings.\<close>

record Letterbox =
  lb_scale :: f32
  lb_w :: int
  lb_h :: int
  lb_wpad :: int
  lb_hpad :: int

definition letterbox :: "int \<Rightarrow> int \<Rightarrow> Letterbox option" where
  "letterbox img_w img_h =
     (let scale = (if img_w > img_h then fdiv (float_of_int target_size) (float_of_int img_w)
                   else fdiv (float_of_int target_size) (float_of_int img_h))
      in case int_of_float (fmul (float_of_int img_w) scale) of
           None \<Rightarrow> None
         | Some w \<Rightarrow>
             (case int_of_float (fmul (float_of_int img_h) scale) of
                None \<Rightarrow> None
              | Some h \<Rightarrow>
                  let w' = (if w > h then target_size else w);
                      h' = (if w > h then h else target_size)
                  in Some \<lparr>lb_scale = scale, lb_w = w', lb_h = h',
                        lb_wpad = c_div (target_size + MAX_STRIDE - 1) MAX_STRIDE * MAX_STRIDE - w',
                        lb_hpad = c_div (target_size + MAX_STRIDE - 1) MAX_STRIDE * MAX_STRIDE - h'\<rparr>))"

text \<open>The body of the last loop of \<^verbatim>\<open>detect\<close>: a kept box mapped back to the image.\<close>

definition map_back :: "f32 \<Rightarrow> int \<Rightarrow> int \<Rightarrow> int \<Rightarrow> int \<Rightarrow> Object \<Rightarrow> Object" where
  "map_back scale wpad hpad img_w img_h ob =
     (let r = rect ob;
          x0 = clampf (fdiv (fsub (rect_x r) (float_of_int (c_div wpad 2))) scale)
                 (Fin 0) (fsub (float_of_int img_w) (Fin 1));
          y0 = clampf (fdiv (fsub (rect_y r) (float_of_int (c_div hpad 2))) scale)
                 (Fin 0) (fsub (float_of_int img_h) (Fin 1));
          x1 = clampf (fdiv (fsub (fadd (rect_x r) (rect_width r))
                                (float_of_int (c_div wpad 2))) scale)
                 (Fin 0) (fsub (float_of_int img_w) (Fin 1));
          y1 = clampf (fdiv (fsub (fadd (rect_y r) (rect_height r))
                                (float_of_int (c_div hpad 2))) scale)
                 (Fin 0) (fsub (float_of_int img_h) (Fin 1))
      in ob\<lparr>rect := \<lparr>rect_x = x0, rect_y = y0,
                       rect_width = fsub x1 x0, rect_height = fsub y1 y0\<rparr>\<rparr>)"

text \<open>\<^verbatim>\<open>cv::Mat\<close> (the image) and \<^verbatim>\<open>ncnn::Mat\<close> (the output tensor). Resizing, padding,
  normalisation and the forward pass belong to ncnn: \<open>forward\<close> stands for them, from the
  image and the letterbox to the output tensor.\<close>

record 'px Mat =
  cols :: int
  rows :: int
  pixels :: 'px

record ncnn_Mat =
  mat_w :: int
  mat_h :: int
  mat_data :: "f32 list"

definition detect ::
  "('px Mat \<Rightarrow> Letterbox \<Rightarrow> ncnn_Mat) \<Rightarrow> f32 \<Rightarrow> f32 \<Rightarrow> 'px Mat \<Rightarrow> (int \<times> Object list) option" where
  "detect forward fconf_thres fnms_thres bgr =
     (let img_w = cols bgr; img_h = rows bgr
      in case letterbox img_w img_h of
           None \<Rightarrow> None
         | Some lb \<Rightarrow>
             let out = forward bgr lb;
                 in_pad_w = lb_w lb + c_div (lb_wpad lb) 2 + (lb_wpad lb - c_div (lb_wpad lb) 2);
                 in_pad_h = lb_h lb + c_div (lb_hpad lb) 2 + (lb_hpad lb - c_div (lb_hpad lb) 2)
             in case parse_yolov11_detections (mat_data out) fconf_thres (mat_h out) (mat_w out)
                       (mat_h out - 4) in_pad_w in_pad_h of
                  None \<Rightarrow> None
                | Some proposals \<Rightarrow>
                    (case qsort_descent_inplace proposals of
                       None \<Rightarrow> None
                     | Some sorted_proposals \<Rightarrow>
                         let picked = nms_sorted_bboxes sorted_proposals fnms_thres False
                         in Some (0, map (\<lambda>k. map_back (lb_scale lb) (lb_wpad lb) (lb_hpad lb)
                                               img_w img_h (sorted_proposals ! k)) picked)))"

section \<open>Notions used in the statements\<close>

text \<open>The intersection over union that the filter computes for a candidate \<open>a\<close> against
  a kept candidate \<open>b\<close>.\<close>

definition iou :: "Object \<Rightarrow> Object \<Rightarrow> f32" where
  "iou a b = fdiv (intersection_area a b)
     (fsub (fadd (rect_area (rect a)) (rect_area (rect b))) (intersection_area a b))"

text \<open>\<open>m\<close> is the index of the maximum of \<open>cls\<close>, the first one where the maximum occurs
  several times.\<close>

definition is_first_max :: "f32 list \<Rightarrow> nat \<Rightarrow> bool" where
  "is_first_max cls m =
     (m < length cls \<and> (\<forall>s\<in>set cls. fle s (cls ! m)) \<and> (\<forall>j<m. flt (cls ! j) (cls ! m)))"


section \<open>Properties of the arithmetic\<close>

subsection \<open>Rounding is monotone\<close>

lemma rne_cases: "rne q = \<lfloor>q\<rfloor> \<or> rne q = \<lfloor>q\<rfloor> + 1"
  by (simp add: rne_def Let_def)

lemma rne_of_int [simp]: "rne (of_int n) = n"
  by (simp add: rne_def)

lemma rne_mono: "a \<le> b \<Longrightarrow> rne a \<le> rne b"
proof -
  assume ab: "a \<le> b"
  have fl: "\<lfloor>a\<rfloor> \<le> \<lfloor>b\<rfloor>" using ab by (rule floor_mono)
  show ?thesis
  proof (cases "\<lfloor>a\<rfloor> = \<lfloor>b\<rfloor>")
    case True
    then show ?thesis using ab by (auto simp: rne_def Let_def)
  next
    case False
    then have "\<lfloor>a\<rfloor> + 1 \<le> \<lfloor>b\<rfloor>" using fl by linarith
    moreover have "rne a \<le> \<lfloor>a\<rfloor> + 1" using rne_cases [of a] by linarith
    moreover have "\<lfloor>b\<rfloor> \<le> rne b" using rne_cases [of b] by linarith
    ultimately show ?thesis by linarith
  qed
qed

lemma rne_le_int: "q \<le> of_int n \<Longrightarrow> rne q \<le> n"
  using rne_mono [of q "of_int n"] by simp

lemma rne_ge_int: "of_int n \<le> q \<Longrightarrow> n \<le> rne q"
  using rne_mono [of "of_int n" q] by simp

lemma rne_near: "\<bar>of_int (rne q) - q\<bar> \<le> 1 / 2"
  by (auto simp: rne_def Let_def abs_le_iff)

lemma ulp_of_pos: "0 < ulp_of n"
  by (induction n rule: ulp_of.induct) (subst ulp_of.simps, auto)

lemma ulp_of_upper: "n < 2 ^ 24 * ulp_of n"
proof (induction n rule: ulp_of.induct)
  case (1 n)
  show ?case
  proof (cases "n < 2 ^ 24")
    case True
    then show ?thesis by (subst ulp_of.simps) simp
  next
    case False
    then have "n div 2 < 2 ^ 24 * ulp_of (n div 2)" using 1 by simp
    then have "n < 2 * (2 ^ 24 * ulp_of (n div 2))" by linarith
    then show ?thesis using False by (subst ulp_of.simps) simp
  qed
qed

lemma ulp_of_lower: "ulp_of n = 1 \<or> 2 ^ 23 * ulp_of n \<le> n"
proof (induction n rule: ulp_of.induct)
  case (1 n)
  show ?case
  proof (cases "n < 2 ^ 24")
    case True
    then show ?thesis by (subst ulp_of.simps) simp
  next
    case False
    then have ih: "ulp_of (n div 2) = 1 \<or> 2 ^ 23 * ulp_of (n div 2) \<le> n div 2"
      using 1 by simp
    have eq: "ulp_of n = 2 * ulp_of (n div 2)" using False by (subst ulp_of.simps) simp
    from ih show ?thesis
    proof
      assume "ulp_of (n div 2) = 1"
      then show ?thesis using eq False by simp
    next
      assume "2 ^ 23 * ulp_of (n div 2) \<le> n div 2"
      then have "2 * (2 ^ 23 * ulp_of (n div 2)) \<le> n" by linarith
      then show ?thesis using eq by simp
    qed
  qed
qed

lemma ulp_of_mono_dvd: "m \<le> n \<Longrightarrow> ulp_of m dvd ulp_of n"
proof (induction n arbitrary: m rule: ulp_of.induct)
  case (1 n)
  show ?case
  proof (cases "m < 2 ^ 24")
    case True
    then have "ulp_of m = 1" by (subst ulp_of.simps) simp
    then show ?thesis by simp
  next
    case False
    then have n: "\<not> n < 2 ^ 24" using 1(2) by linarith
    have "m div 2 \<le> n div 2" using 1(2) by (rule div_le_mono)
    then have "ulp_of (m div 2) dvd ulp_of (n div 2)" using 1(1) n by simp
    moreover have "ulp_of m = 2 * ulp_of (m div 2)" using False by (subst ulp_of.simps) simp
    moreover have "ulp_of n = 2 * ulp_of (n div 2)" using n by (subst ulp_of.simps) simp
    ultimately show ?thesis by simp
  qed
qed

lemma round_mag_mono:
  assumes "0 \<le> x" "x \<le> y"
  shows "round_mag x \<le> round_mag y"
proof -
  define s where "s = x * 2 ^ 149"
  define t where "t = y * 2 ^ 149"
  define a where "a = nat \<lfloor>s\<rfloor>"
  define b where "b = nat \<lfloor>t\<rfloor>"
  define u where "u = ulp_of a"
  define v where "v = ulp_of b"
  have s0: "0 \<le> s" and st: "s \<le> t" using assms by (simp_all add: s_def t_def)
  have ab: "a \<le> b" unfolding a_def b_def using st by (simp add: floor_mono nat_mono)
  have upos: "0 < u" and vpos: "0 < v" by (simp_all add: u_def v_def ulp_of_pos)
  have dv: "u dvd v" unfolding u_def v_def using ab by (rule ulp_of_mono_dvd)
  have rx: "round_mag x = of_int (rne (s / real u)) * real u / 2 ^ 149"
    by (simp add: round_mag_def ulp_scaled_def s_def a_def u_def)
  have ry: "round_mag y = of_int (rne (t / real v)) * real v / 2 ^ 149"
    by (simp add: round_mag_def ulp_scaled_def t_def b_def v_def)
  have "of_int (rne (s / real u)) * real u \<le> of_int (rne (t / real v)) * real v"
  proof (cases "u = v")
    case True
    have "s / real u \<le> t / real u" using st upos by (simp add: divide_right_mono)
    then have "rne (s / real u) \<le> rne (t / real u)" by (rule rne_mono)
    then show ?thesis using True upos by simp
  next
    case False
    then obtain k where k: "v = u * k" using dv by (auto simp: dvd_def)
    have "k \<noteq> 0" "k \<noteq> 1" using k False vpos by auto
    then have "2 \<le> k" by linarith
    then have uv: "2 * u \<le> v" using k by simp
    have "v \<noteq> 1" using uv upos by linarith
    then have "2 ^ 23 * v \<le> b" using ulp_of_lower [of b] by (simp add: v_def)
    moreover have "real b \<le> t" using s0 st by (simp add: b_def)
    ultimately have "real (2 ^ 23 * v) \<le> t" by linarith
    then have "of_int (2 ^ 23) \<le> t / real v" using vpos by (simp add: pos_le_divide_eq)
    then have "2 ^ 23 \<le> rne (t / real v)" by (rule rne_ge_int)
    then have "(2 ^ 23 :: real) \<le> of_int (rne (t / real v))"
      using of_int_le_iff [of "2 ^ 23" "rne (t / real v)", where ?'a = real] by simp
    then have lo: "2 ^ 23 * real v \<le> of_int (rne (t / real v)) * real v"
      using vpos by simp
    have "a < 2 ^ 24 * u" unfolding u_def by (rule ulp_of_upper)
    then have "a + 1 \<le> 2 ^ 24 * u" by simp
    then have "real a + 1 \<le> real (2 ^ 24 * u)" by linarith
    moreover have "s < real a + 1" using s0 by (simp add: a_def)
    ultimately have "s \<le> real (2 ^ 24 * u)" by linarith
    then have "s / real u \<le> of_int (2 ^ 24)" using upos by (simp add: pos_divide_le_eq)
    then have "rne (s / real u) \<le> 2 ^ 24" by (rule rne_le_int)
    then have "of_int (rne (s / real u)) \<le> (2 ^ 24 :: real)"
      using of_int_le_iff [of "rne (s / real u)" "2 ^ 24", where ?'a = real] by simp
    then have hi: "of_int (rne (s / real u)) * real u \<le> 2 ^ 24 * real u"
      using upos by simp
    have "real (2 * u) \<le> real v" using uv by (rule of_nat_mono)
    then have "2 ^ 24 * real u \<le> 2 ^ 23 * real v" by simp
    then show ?thesis using lo hi by linarith
  qed
  then show ?thesis unfolding rx ry by (simp add: divide_right_mono)
qed

lemma rne_0 [simp]: "rne 0 = 0"
  using rne_of_int [of 0] by simp

lemma round_mag_0 [simp]: "round_mag 0 = 0"
  by (simp add: round_mag_def)

lemma round_mag_nonneg: "0 \<le> x \<Longrightarrow> 0 \<le> round_mag x"
  using round_mag_mono [of 0 x] by simp

lemma flt_asym: "flt a b \<Longrightarrow> \<not> flt b a"
  by (auto simp: flt_def)

lemma not_flt_fle: "a \<noteq> NaN \<Longrightarrow> b \<noteq> NaN \<Longrightarrow> \<not> flt a b \<Longrightarrow> fle b a"
  by (auto simp: flt_def fle_def)

lemma fle_trans: "fle a b \<Longrightarrow> fle b c \<Longrightarrow> fle a c"
  by (auto simp: fle_def)

lemma fle_refl: "a \<noteq> NaN \<Longrightarrow> fle a a"
  by (simp add: fle_def)

lemma ulp_of_pow2: "\<exists>k. ulp_of n = 2 ^ k"
proof (induction n rule: ulp_of.induct)
  case (1 n)
  show ?case
  proof (cases "n < 2 ^ 24")
    case True
    then have "ulp_of n = 2 ^ 0" by (subst ulp_of.simps) simp
    then show ?thesis by blast
  next
    case False
    then obtain k where "ulp_of (n div 2) = 2 ^ k" using 1 by auto
    then have "ulp_of n = 2 ^ Suc k" using False by (subst ulp_of.simps) simp
    then show ?thesis by blast
  qed
qed

lemma ulp_of_jump: "2 ^ (24 + k) \<le> n \<Longrightarrow> ulp_of n = 2 ^ k * ulp_of (n div 2 ^ k)"
proof (induction k arbitrary: n)
  case 0
  show ?case by simp
next
  case (Suc k)
  have "(2::nat) ^ 24 \<le> 2 ^ (24 + Suc k)" by (rule power_increasing) simp_all
  then have n: "\<not> n < 2 ^ 24" using Suc.prems by linarith
  have "2 ^ (24 + k) \<le> n div 2"
  proof -
    have "(2::nat) ^ (24 + Suc k) = 2 * 2 ^ (24 + k)" by (simp only: add_Suc_right power_Suc)
    then have "2 * 2 ^ (24 + k) \<le> n" using Suc.prems by simp
    then show ?thesis by linarith
  qed
  then have "ulp_of (n div 2) = 2 ^ k * ulp_of (n div 2 div 2 ^ k)" by (rule Suc.IH)
  moreover have "n div 2 div 2 ^ k = n div 2 ^ Suc k" by (simp add: div_mult2_eq)
  moreover have "ulp_of n = 2 * ulp_of (n div 2)" using n by (subst ulp_of.simps) simp
  ultimately show ?case by simp
qed

lemma round_mag_exact: 
  assumes "a < 2 ^ 24"
  shows "round_mag (real (a * 2 ^ e) / 2 ^ 149) = real (a * 2 ^ e) / 2 ^ 149"
proof -
  define s where "s = a * 2 ^ e"
  obtain k where k: "ulp_of s = 2 ^ k" using ulp_of_pow2 by blast
  have dv: "ulp_of s dvd s"
  proof (cases "k = 0")
    case True
    then show ?thesis using k by simp
  next
    case False
    then have "ulp_of s \<noteq> 1" using k by simp
    then have "2 ^ 23 * 2 ^ k \<le> s" using ulp_of_lower [of s] k by simp
    moreover have "s < 2 ^ 24 * 2 ^ e" using assms by (simp add: s_def)
    ultimately have "(2::nat) ^ (23 + k) < 2 ^ (24 + e)" by (simp add: power_add)
    then have "23 + k < 24 + e" by (simp only: power_strict_increasing_iff one_less_numeral_iff semiring_norm)
    then have "k \<le> e" by simp
    then have "(2::nat) ^ k dvd 2 ^ e" by (rule le_imp_power_dvd)
    then show ?thesis using k by (simp add: s_def)
  qed
  then obtain q where q: "s = ulp_of s * q" by (auto simp: dvd_def)
  have pos: "0 < ulp_of s" by (rule ulp_of_pos)
  have fl: "nat \<lfloor>real s / 2 ^ 149 * 2 ^ 149\<rfloor> = s" by simp
  have "real s / real (ulp_of s) = of_int (int q)"
    using q pos by (metis nonzero_mult_div_cancel_left of_int_of_nat_eq of_nat_0_less_iff of_nat_mult less_numeral_extra(3))
  then have "rne (real s / real (ulp_of s)) = int q" by (simp only: rne_of_int)
  then have "of_int (rne (real s / real (ulp_of s))) * real (ulp_of s) = real s"
    using q by (metis mult.commute of_int_of_nat_eq of_nat_mult)
  then show ?thesis unfolding s_def [symmetric] round_mag_def ulp_scaled_def fl
    by simp
qed

lemma round_mag_nat: "n < 2 ^ 24 \<Longrightarrow> round_mag (real n) = real n"
  using round_mag_exact [of n 149] by simp

lemma ulp_eval:
  "ulp_of n = (if n < 2 ^ 24 then 1
     else if n < 2 ^ 28 then 2 * ulp_of (n div 2)
     else if n < 2 ^ 40 then 16 * ulp_of (n div 16)
     else if n < 2 ^ 88 then 65536 * ulp_of (n div 65536)
     else 18446744073709551616 * ulp_of (n div 18446744073709551616))"
proof -
  have a: "\<not> n < 2 ^ 24 \<Longrightarrow> ulp_of n = 2 * ulp_of (n div 2)"
    by (subst ulp_of.simps) simp
  have b: "\<not> n < 2 ^ 28 \<Longrightarrow> ulp_of n = 16 * ulp_of (n div 16)"
    using ulp_of_jump [of 4 n] by simp
  have c: "\<not> n < 2 ^ 40 \<Longrightarrow> ulp_of n = 65536 * ulp_of (n div 65536)"
    using ulp_of_jump [of 16 n] by simp
  have d: "\<not> n < 2 ^ 88 \<Longrightarrow> ulp_of n = 18446744073709551616 * ulp_of (n div 18446744073709551616)"
    using ulp_of_jump [of 64 n] by simp
  show ?thesis
  proof (cases "n < 2 ^ 24")
    case True
    then show ?thesis by (subst ulp_of.simps) simp
  next
    case False
    then show ?thesis using a b c d by auto
  qed
qed

lemma round32_not_nan [simp]: "round32 sg x \<noteq> NaN"
  by (simp add: round32_def Let_def inf_of_def zero_of_def)

lemma round32_mono: 
  assumes "x \<le> y"
  shows "fle (round32 s x) (round32 t y)"
proof -
  have nx: "0 \<le> round_mag \<bar>x\<bar>" and ny: "0 \<le> round_mag \<bar>y\<bar>"
    by (simp_all add: round_mag_nonneg)
  consider "y < 0" | "x < 0" "0 \<le> y" | "0 \<le> x" by linarith
  then show ?thesis
  proof cases
    case 1
    then have "\<bar>y\<bar> \<le> \<bar>x\<bar>" using assms by simp
    then have "round_mag \<bar>y\<bar> \<le> round_mag \<bar>x\<bar>" by (intro round_mag_mono) simp_all
    then show ?thesis using 1 assms nx ny
      by (auto simp: round32_def fle_def Let_def inf_of_def zero_of_def)
  next
    case 2
    then show ?thesis using nx ny
      by (auto simp: round32_def fle_def Let_def inf_of_def zero_of_def)
  next
    case 3
    then have "\<bar>x\<bar> \<le> \<bar>y\<bar>" using assms by simp
    then have "round_mag \<bar>x\<bar> \<le> round_mag \<bar>y\<bar>" by (intro round_mag_mono) simp_all
    then show ?thesis using 3 assms nx ny
      by (auto simp: round32_def fle_def Let_def inf_of_def zero_of_def)
  qed
qed

lemma round32_0: "round32 sg 0 = zero_of sg"
  by (simp add: round32_def)

lemma round32_nonneg: "0 \<le> x \<Longrightarrow> fle (Fin 0) (round32 sg x)"
  using round32_mono [of 0 x False sg] by (simp add: round32_0 zero_of_def)

lemma round32_nonpos: "x \<le> 0 \<Longrightarrow> fle (round32 sg x) (Fin 0)"
  using round32_mono [of x 0 sg False] by (simp add: round32_0 zero_of_def)

lemma round_mag_upper:
  assumes "1 / 2 ^ 126 \<le> x"
  shows "round_mag x \<le> x * (1 + 1 / 2 ^ 24)"
proof -
  define s where "s = x * 2 ^ 149"
  define u where "u = real (ulp_of (nat \<lfloor>s\<rfloor>))"
  have s23: "2 ^ 23 \<le> s"
  proof -
    have "1 / 2 ^ 126 * 2 ^ 149 \<le> x * 2 ^ 149" using assms by (simp only: mult_le_cancel_right_pos zero_less_power zero_less_numeral)
    then show ?thesis by (simp add: s_def)
  qed
  have upos: "0 < u" by (simp add: u_def ulp_of_pos)
  have ub: "u * 2 ^ 23 \<le> s"
  proof (cases "ulp_of (nat \<lfloor>s\<rfloor>) = 1")
    case True
    then show ?thesis using s23 by (simp add: u_def)
  next
    case False
    then have "2 ^ 23 * ulp_of (nat \<lfloor>s\<rfloor>) \<le> nat \<lfloor>s\<rfloor>" using ulp_of_lower by blast
    then have "real (2 ^ 23 * ulp_of (nat \<lfloor>s\<rfloor>)) \<le> real (nat \<lfloor>s\<rfloor>)" by (rule of_nat_mono)
    moreover have "real (nat \<lfloor>s\<rfloor>) \<le> s" using s23 by simp
    ultimately show ?thesis by (simp add: u_def)
  qed
  have "of_int (rne (s / u)) \<le> s / u + 1 / 2" using rne_near [of "s / u"] by linarith
  then have "of_int (rne (s / u)) * u \<le> (s / u + 1 / 2) * u" using upos by simp
  also have "\<dots> = s + u / 2" using upos by (simp add: field_simps)
  also have "\<dots> \<le> s + s / 2 ^ 24" using ub by simp
  finally have le: "of_int (rne (s / u)) * u \<le> s + s / 2 ^ 24" .
  have fin: "of_int (rne (s / u)) * u / 2 ^ 149 \<le> (s + s / 2 ^ 24) / 2 ^ 149"
    using le by (rule divide_right_mono) simp
  have r: "round_mag x = of_int (rne (s / u)) * u / 2 ^ 149"
    by (simp add: round_mag_def ulp_scaled_def s_def u_def)
  have eq: "(s + s / 2 ^ 24) / 2 ^ 149 = x * (1 + 1 / 2 ^ 24)" by (simp add: s_def field_simps)
  show ?thesis unfolding r eq [symmetric] by (rule fin)
qed

lemma round32_real_nat:
  assumes "0 < n" "n < 2 ^ 24"
  shows "round32 sg (real n) = Fin (real n)" and "round32 sg (- real n) = Fin (- real n)"
proof -
  have m: "round_mag (real n) = real n" using assms(2) by (rule round_mag_nat)
  have "real n < real (2 ^ 24)" using assms(2) by (simp only: of_nat_less_iff)
  then have b: "\<not> 2 ^ 128 \<le> real n" by simp
  have z: "real n \<noteq> 0" "\<not> real n < 0" using assms(1) by simp_all
  show "round32 sg (real n) = Fin (real n)" using m b z by (simp add: round32_def)
  show "round32 sg (- real n) = Fin (- real n)" using m b z assms(1) by (simp add: round32_def)
qed

lemma round32_numeral:
  "numeral w < (2 ^ 24 :: nat) \<Longrightarrow> round32 sg (numeral w) = Fin (numeral w)"
  using round32_real_nat(1) [of "numeral w" sg] by simp

lemma round32_neg_numeral:
  "numeral w < (2 ^ 24 :: nat) \<Longrightarrow> round32 sg (- numeral w) = Fin (- numeral w)"
  using round32_real_nat(2) [of "numeral w" sg] by simp

lemma round32_1: "round32 sg 1 = Fin 1"
  using round32_real_nat(1) [of 1 sg] by simp

lemma flt_imp_fle: "flt a b \<Longrightarrow> fle a b"
  by (auto simp: flt_def fle_def)

lemma fle_not_nan: "fle a b \<Longrightarrow> a \<noteq> NaN \<and> b \<noteq> NaN"
  by (simp add: fle_def)

lemma flt_fle_trans: "flt a b \<Longrightarrow> fle b c \<Longrightarrow> flt a c"
  by (auto simp: flt_def fle_def)

lemma fle_flt_trans: "fle a b \<Longrightarrow> flt b c \<Longrightarrow> flt a c"
  by (auto simp: flt_def fle_def)

lemma fle_not_flt: "fle a b \<Longrightarrow> \<not> flt b a"
  by (auto simp: flt_def fle_def)

lemma clampf_bounds:
  assumes "fle mn mx"
  shows "fle mn (clampf d mn mx) \<and> fle (clampf d mn mx) mx"
proof -
  have nn: "mn \<noteq> NaN" "mx \<noteq> NaN" using assms by (simp_all add: fle_def)
  show ?thesis
  proof (cases "flt d mx")
    case True
    then have m: "std_min mx d = d" by (simp add: std_min_def)
    show ?thesis
    proof (cases "flt mn d")
      case t: True
      then show ?thesis using m True by (simp add: clampf_def std_max_def flt_imp_fle)
    next
      case False
      then show ?thesis using m assms nn by (simp add: clampf_def std_max_def fle_refl)
    qed
  next
    case False
    then have m: "std_min mx d = mx" by (simp add: std_min_def)
    show ?thesis using m assms nn by (simp add: clampf_def std_max_def fle_refl)
  qed
qed

lemma clampf_above:
  assumes "fle mn mx" "fle mx d"
  shows "clampf d mn mx = (if flt mn mx then mx else mn)"
  using assms by (simp add: clampf_def std_min_def std_max_def fle_not_flt)

lemma clampf_nan: "clampf NaN mn mx = (if flt mn mx then mx else mn)"
  by (simp add: clampf_def std_min_def std_max_def flt_def)

lemma clampf_le:
  assumes "fle mn mx" and "hi = NaN \<or> (lo = NaN \<and> fle mx hi) \<or> fle lo hi"
  shows "fle (clampf lo mn mx) (clampf hi mn mx)"
proof -
  have nn: "mn \<noteq> NaN" "mx \<noteq> NaN" using assms by (simp_all add: fle_def)
  have top: "fle (clampf d mn mx) (if flt mn mx then mx else mn)" for d
  proof (cases "flt mn mx")
    case True
    then show ?thesis using clampf_bounds [OF assms(1), of d] by simp
  next
    case False
    then have "fle mx mn" using nn by (simp add: not_flt_fle)
    then show ?thesis using clampf_bounds [OF assms(1), of d] False fle_trans by auto
  qed
  from assms(2) show ?thesis
  proof (elim disjE)
    assume "hi = NaN"
    then show ?thesis using top by (simp add: clampf_nan)
  next
    assume "lo = NaN \<and> fle mx hi"
    then have "clampf lo mn mx = clampf hi mn mx"
      using clampf_above [OF assms(1), of hi] by (simp add: clampf_nan)
    then show ?thesis using clampf_bounds [OF assms(1), of hi] by (simp add: fle_refl fle_def)
  next
    assume le: "fle lo hi"
    then have lh: "lo \<noteq> NaN" "hi \<noteq> NaN" by (simp_all add: fle_def)
    show ?thesis
    proof (cases "flt hi mx")
      case False
      then have "fle mx hi" using lh nn by (simp add: not_flt_fle)
      then have "clampf hi mn mx = (if flt mn mx then mx else mn)"
        by (rule clampf_above [OF assms(1)])
      then show ?thesis using top by simp
    next
      case True
      then have lo: "flt lo mx" using le fle_flt_trans by blast
      show ?thesis
      proof (cases "flt mn lo")
        case True
        then have "flt mn hi" using le flt_fle_trans by blast
        then show ?thesis using True lo \<open>flt hi mx\<close> le
          by (simp add: clampf_def std_min_def std_max_def)
      next
        case False
        then have "clampf lo mn mx = mn" using lo by (simp add: clampf_def std_min_def std_max_def)
        then show ?thesis using clampf_bounds [OF assms(1), of hi] by simp
      qed
    qed
  qed
qed

lemma fsub_nonneg:
  assumes "fle a b" "rank a = 0" "rank b = 0"
  shows "fle (Fin 0) (fsub b a)"
proof -
  have nn: "a \<noteq> NaN" "b \<noteq> NaN" and v: "val a \<le> val b"
    using assms by (auto simp: fle_def)
  have ia: "\<not> is_inf a" "\<not> is_inf b" using assms(2,3) by (auto simp: is_inf_def)
  have "val (fneg a) = - val a" "fneg a \<noteq> NaN" "\<not> is_inf (fneg a)"
    using nn ia by (cases a; simp add: fneg_def is_inf_def)+
  then have "fsub b a = round32 (signbit b \<and> signbit (fneg a)) (val b - val a)"
    using nn ia by (simp add: fsub_def fadd_def)
  then show ?thesis using v by (simp add: round32_nonneg)
qed

lemma lo_hi_corners:
  assumes "fle (Fin 0) hw" "rank mx = 0" "mx \<noteq> NaN"
  shows "fadd x hw = NaN \<or> (fsub x hw = NaN \<and> fle mx (fadd x hw)) \<or> fle (fsub x hw) (fadd x hw)"
proof (cases "x = NaN")
  case True
  then show ?thesis by (simp add: fadd_def)
next
  case xn: False
  have hn: "hw \<noteq> NaN" "hw \<noteq> NInf" and hv: "rank hw = 0 \<Longrightarrow> 0 \<le> val hw"
    using assms(1) by (auto simp: fle_def)
  show ?thesis
  proof (cases "is_inf x \<or> is_inf hw")
    case True
    then show ?thesis using xn hn assms(2,3)
      by (cases x; cases hw) (auto simp: fadd_def fsub_def fneg_def is_inf_def fle_def)
  next
    case False
    then have f: "\<not> is_inf x" "\<not> is_inf hw" by simp_all
    then have r: "rank hw = 0" by (cases hw) (auto simp: is_inf_def)
    have n: "val (fneg hw) = - val hw" "fneg hw \<noteq> NaN" "\<not> is_inf (fneg hw)"
      using hn f by (cases hw; simp add: fneg_def is_inf_def)+
    have "fsub x hw = round32 (signbit x \<and> signbit (fneg hw)) (val x - val hw)"
      using xn f n by (simp add: fsub_def fadd_def)
    moreover have "fadd x hw = round32 (signbit x \<and> signbit hw) (val x + val hw)"
      using xn hn f by (simp add: fadd_def)
    moreover have "val x - val hw \<le> val x + val hw" using hv r by simp
    ultimately show ?thesis using round32_mono by simp
  qed
qed

lemma round_mag_idem:
  assumes "0 \<le> x"
  shows "round_mag (round_mag x) = round_mag x"
proof -
  define s where "s = x * 2 ^ 149"
  define a where "a = nat \<lfloor>s\<rfloor>"
  obtain k where k: "ulp_of a = 2 ^ k" using ulp_of_pow2 by blast
  define n where "n = rne (s / real (ulp_of a))"
  have s0: "0 \<le> s" using assms by (simp add: s_def)
  have upos: "0 < real (ulp_of a)" by (simp add: ulp_of_pos)
  have n0: "0 \<le> n" unfolding n_def using s0 upos by (intro rne_ge_int) simp
  have "a < 2 ^ 24 * ulp_of a" by (rule ulp_of_upper)
  then have "a + 1 \<le> 2 ^ 24 * ulp_of a" by simp
  then have "real a + 1 \<le> real (2 ^ 24 * ulp_of a)" by linarith
  moreover have "s < real a + 1" using s0 by (simp add: a_def)
  ultimately have "s \<le> real (2 ^ 24 * ulp_of a)" by linarith
  then have "s / real (ulp_of a) \<le> of_int (2 ^ 24)" using upos by (simp add: pos_divide_le_eq)
  then have n24: "n \<le> 2 ^ 24" unfolding n_def by (rule rne_le_int)
  have r: "round_mag x = real (nat n * 2 ^ k) / 2 ^ 149"
    using n0 k by (simp add: round_mag_def ulp_scaled_def s_def a_def n_def)
  show ?thesis
  proof (cases "n < 2 ^ 24")
    case True
    then have "nat n < 2 ^ 24" using n0 by (simp add: nat_less_iff)
    then show ?thesis unfolding r by (rule round_mag_exact)
  next
    case False
    then have "n = 2 ^ 24" using n24 by simp
    then have "nat n * 2 ^ k = 2 ^ 23 * 2 ^ Suc k" by (simp add: nat_power_eq)
    moreover have "round_mag (real (2 ^ 23 * 2 ^ Suc k) / 2 ^ 149) = real (2 ^ 23 * 2 ^ Suc k) / 2 ^ 149"
      by (rule round_mag_exact) simp
    ultimately show ?thesis unfolding r by simp
  qed
qed

lemma is_f32_round32 [simp]: "is_f32 (round32 sg x)"
proof -
  have i: "round_mag (round_mag \<bar>x\<bar>) = round_mag \<bar>x\<bar>" by (rule round_mag_idem) simp
  have n: "0 \<le> round_mag \<bar>x\<bar>" by (rule round_mag_nonneg) simp
  show ?thesis using i n
    by (auto simp: is_f32_def round32_def Let_def inf_of_def zero_of_def)
qed

lemma is_f32_val:
  assumes "is_f32 a" "rank a = 0" "a \<noteq> NaN"
  shows "fle (round32 sg (val a)) a \<and> fle a (round32 sg (val a))"
proof (cases a)
  case (Fin r)
  then have "round32 False r = Fin r" using assms(1) by (simp add: is_f32_def)
  moreover have "val (round32 sg r) = val (round32 False r) \<and> rank (round32 sg r) = rank (round32 False r)"
    by (auto simp: round32_def Let_def inf_of_def zero_of_def)
  ultimately show ?thesis using Fin by (simp add: fle_def)
next
  case NZero
  then show ?thesis by (simp add: round32_0 zero_of_def fle_def)
qed (use assms in auto)

lemma float_of_int_rank:
  assumes "\<bar>n\<bar> \<le> 2 ^ 31"
  shows "rank (float_of_int n) = 0"
proof -
  have "\<bar>real_of_int n\<bar> \<le> 2 ^ 31" using assms by (metis of_int_abs of_int_le_iff of_int_numeral of_int_power)
  then have "round_mag \<bar>real_of_int n\<bar> \<le> round_mag (2 ^ 31)" by (intro round_mag_mono) simp_all
  moreover have "round_mag (2 ^ 31) = 2 ^ 31" using round_mag_exact [of 1 180] by simp
  ultimately have "\<not> 2 ^ 128 \<le> round_mag \<bar>real_of_int n\<bar>" by simp
  then show ?thesis by (simp add: float_of_int_def round32_def Let_def zero_of_def)
qed

lemma float_of_int_nonneg: "0 \<le> n \<Longrightarrow> fle (Fin 0) (float_of_int n)"
  by (simp add: float_of_int_def round32_nonneg)

lemma float_of_int_zero_or_pos:
  "0 \<le> n \<Longrightarrow> \<not> flt (Fin 0) (float_of_int n) \<Longrightarrow> float_of_int n = Fin 0"
  using round_mag_nonneg [of "\<bar>real_of_int n\<bar>"]
  by (auto simp: float_of_int_def round32_def Let_def zero_of_def inf_of_def flt_def split: if_splits)

lemma fmul_half_nonneg: "fle (Fin 0) w \<Longrightarrow> fle (Fin 0) (fmul (Fin (1 / 2)) w)"
proof (cases w)
  case (Fin r)
  assume "fle (Fin 0) w"
  then have "0 \<le> r" using Fin by (simp add: fle_def)
  then show ?thesis using Fin by (simp add: fmul_def is_inf_def round32_nonneg)
next
  case NZero
  then show ?thesis by (simp add: fmul_def is_inf_def round32_0 zero_of_def fle_def)
qed (auto simp: fmul_def is_inf_def is_zero_def inf_of_def fle_def)

lemma rank_between: "fle a b \<Longrightarrow> fle b c \<Longrightarrow> rank a = 0 \<Longrightarrow> rank c = 0 \<Longrightarrow> rank b = 0"
  by (cases b) (auto simp: fle_def)

lemma clamped_span_nonneg:
  assumes "fle (Fin 0) mx" "rank mx = 0" "fle (Fin 0) hw"
  shows "fle (Fin 0) (fsub (clampf (fadd x hw) (Fin 0) mx) (clampf (fsub x hw) (Fin 0) mx))"
proof -
  have mn: "mx \<noteq> NaN" using assms(1) by (simp add: fle_def)
  have "fadd x hw = NaN \<or> (fsub x hw = NaN \<and> fle mx (fadd x hw)) \<or> fle (fsub x hw) (fadd x hw)"
    using assms(3,2) mn by (rule lo_hi_corners)
  with assms(1) have le: "fle (clampf (fsub x hw) (Fin 0) mx) (clampf (fadd x hw) (Fin 0) mx)"
    by (rule clampf_le)
  have r: "rank (clampf d (Fin 0) mx) = 0" for d
    using clampf_bounds [OF assms(1), of d] assms(2) rank_between [of "Fin 0" _ mx] by simp
  show ?thesis by (rule fsub_nonneg [OF le r r])
qed

lemma clampf_top:
  assumes "0 \<le> n" "fle (float_of_int n) d"
  shows "clampf d (Fin 0) (float_of_int n) = float_of_int n"
proof -
  have w: "fle (Fin 0) (float_of_int n)" using assms(1) by (rule float_of_int_nonneg)
  show ?thesis using clampf_above [OF w assms(2)] float_of_int_zero_or_pos [OF assms(1)]
    by auto
qed

lemma fadd_ge_self:
  assumes "is_f32 a" "a \<noteq> NaN" "a \<noteq> NInf" "0 \<le> r"
  shows "fle a (fadd a (Fin r))"
proof (cases "a = PInf")
  case True
  then show ?thesis by (simp add: fadd_def is_inf_def fle_def)
next
  case False
  then have rk: "rank a = 0" and ni: "\<not> is_inf a" using assms(2,3) by (cases a; simp add: is_inf_def)+
  have "fadd a (Fin r) = round32 (signbit a \<and> signbit (Fin r)) (val a + r)"
    using assms(2) ni by (simp add: fadd_def is_inf_def)
  moreover have "fle (round32 False (val a)) (round32 (signbit a \<and> signbit (Fin r)) (val a + r))"
    using assms(4) by (intro round32_mono) simp
  moreover have "fle a (round32 False (val a))" using is_f32_val [OF assms(1) rk assms(2)] by simp
  ultimately show ?thesis using fle_trans by simp
qed

lemma is_finite_rank: "is_finite a \<longleftrightarrow> a \<noteq> NaN \<and> rank a = 0"
  by (cases a) (auto simp: is_finite_def is_inf_def)

lemma fadd_rel:
  assumes "is_f32 a" "fle (Fin 0) w"
  shows "fadd a w = NaN \<or> fle a (fadd a w)"
proof (cases "a = NaN \<or> is_inf a \<or> is_inf w")
  case True
  then show ?thesis using assms(2)
    by (cases a; cases w) (auto simp: fadd_def is_inf_def fle_def)
next
  case False
  then have a: "a \<noteq> NaN" "\<not> is_inf a" "\<not> is_inf w" by simp_all
  then have rk: "rank a = 0" by (cases a) (auto simp: is_inf_def)
  have w: "w \<noteq> NaN" "0 \<le> val w" using assms(2) a(3) by (cases w; simp add: fle_def is_inf_def)+
  have "fadd a w = round32 (signbit a \<and> signbit w) (val a + val w)"
    using a w by (simp add: fadd_def)
  moreover have "fle (round32 False (val a)) (round32 (signbit a \<and> signbit w) (val a + val w))"
    using w(2) by (intro round32_mono) simp
  moreover have "fle a (round32 False (val a))" using is_f32_val [OF assms(1) rk a(1)] by simp
  ultimately show ?thesis using fle_trans by simp
qed

lemma fsub_mono_left:
  assumes "fle a b" "is_finite c"
  shows "fle (fsub a c) (fsub b c)"
proof -
  have c: "c \<noteq> NaN" "\<not> is_inf c" using assms(2) by (simp_all add: is_finite_def)
  have n: "val (fneg c) = - val c" "fneg c \<noteq> NaN" "\<not> is_inf (fneg c)"
    using c by (cases c; simp add: fneg_def is_inf_def)+
  have ab: "a \<noteq> NaN" "b \<noteq> NaN" using assms(1) by (simp_all add: fle_def)
  show ?thesis
  proof (cases "is_inf a \<or> is_inf b")
    case True
    then show ?thesis using assms(1) ab n
      by (cases a; cases b) (auto simp: fsub_def fadd_def is_inf_def fle_def round32_def Let_def
          inf_of_def zero_of_def)
  next
    case False
    then have v: "val a \<le> val b" using assms(1) by (cases a; cases b) (auto simp: fle_def is_inf_def)
    have "fsub a c = round32 (signbit a \<and> signbit (fneg c)) (val a - val c)"
      "fsub b c = round32 (signbit b \<and> signbit (fneg c)) (val b - val c)"
      using False ab n by (simp_all add: fsub_def fadd_def)
    then show ?thesis using v by (simp add: round32_mono)
  qed
qed

lemma fdiv_mono_left:
  assumes "fle a b" "flt (Fin 0) c" "is_finite c"
  shows "fle (fdiv a c) (fdiv b c)"
proof -
  have c: "c \<noteq> NaN" "\<not> is_inf c" "0 < val c" "\<not> is_zero c" "\<not> signbit c"
    using assms(2,3) by (cases c; auto simp: is_finite_def flt_def is_zero_def is_inf_def)+
  have ab: "a \<noteq> NaN" "b \<noteq> NaN" using assms(1) by (simp_all add: fle_def)
  show ?thesis
  proof (cases "is_inf a \<or> is_inf b")
    case True
    then show ?thesis using assms(1) ab c
      by (cases a; cases b) (auto simp: fdiv_def is_inf_def fle_def round32_def Let_def
          inf_of_def zero_of_def)
  next
    case False
    then have v: "val a \<le> val b" using assms(1) by (cases a; cases b) (auto simp: fle_def is_inf_def)
    have "fdiv a c = round32 (signbit a \<noteq> signbit c) (val a / val c)"
      "fdiv b c = round32 (signbit b \<noteq> signbit c) (val b / val c)"
      using False ab c by (simp_all add: fdiv_def)
    moreover have "val a / val c \<le> val b / val c" using v c(3) by (simp add: divide_right_mono)
    ultimately show ?thesis by (simp add: round32_mono)
  qed
qed

lemma float_of_int_finite: "\<bar>n\<bar> \<le> 2 ^ 31 \<Longrightarrow> is_finite (float_of_int n)"
  using float_of_int_rank [of n] by (simp add: is_finite_rank float_of_int_def)

lemma float_of_int_Fin:
  assumes "1 \<le> n" "n \<le> 2 ^ 31"
  shows "float_of_int n = Fin (round_mag (of_int n))"
    and "1 \<le> round_mag (of_int n)" and "round_mag (of_int n) \<le> 2 ^ 31"
proof -
  have n: "1 \<le> real_of_int n" "real_of_int n \<le> 2 ^ 31"
    using assms by (simp, metis of_int_le_iff of_int_numeral of_int_power)
  have "round_mag 1 \<le> round_mag (of_int n)" using n by (intro round_mag_mono) simp_all
  moreover have "round_mag 1 = 1" using round_mag_nat [of 1] by simp
  ultimately show lo: "1 \<le> round_mag (of_int n)" by simp
  have "round_mag (of_int n) \<le> round_mag (2 ^ 31)" using n by (intro round_mag_mono) simp_all
  moreover have "round_mag (2 ^ 31) = 2 ^ 31" using round_mag_exact [of 1 180] by simp
  ultimately show hi: "round_mag (of_int n) \<le> 2 ^ 31" by simp
  have "\<not> 2 ^ 128 \<le> round_mag (of_int n)" using hi by simp
  then show "float_of_int n = Fin (round_mag (of_int n))"
    using lo n by (simp add: float_of_int_def round32_def Let_def)
qed

lemma float_of_int_mono: "a \<le> b \<Longrightarrow> fle (float_of_int a) (float_of_int b)"
  by (simp add: float_of_int_def round32_mono)

section \<open>Evaluation\<close>

text \<open>Rules that evaluate the definitions on concrete inputs: \<open>f32_eval\<close> rounds with
  \<open>round32\<close> itself, \<open>f32_exact\<close> uses that small integers are binary32 numbers.\<close>

lemmas f32_eval = flt_def fle_def fgt_def fadd_def fsub_def fmul_def fdiv_def fneg_def
  round32_def round_mag_def ulp_scaled_def ulp_eval rne_def is_inf_def is_zero_def
  inf_of_def zero_of_def std_min_def std_max_def float_of_int_def int_of_float_def

lemmas f32_exact = flt_def fle_def fgt_def fadd_def fsub_def fmul_def fdiv_def fneg_def
  round32_numeral round32_neg_numeral round32_0 round32_1 is_inf_def is_zero_def
  inf_of_def zero_of_def std_min_def std_max_def float_of_int_def

lemmas nms_eval = nms_sorted_bboxes_def nms_step_def nms_keep_def suppresses_def
  union_area_def intersection_area_def rect_and_def rect_area_def rect_empty_def Rect0_def

lemmas decoder_eval = parse_yolov11_detections_def decode_anchor_def decode_row_def
  output_row_def class_scores_def anchor_scores_def max_element_def box_corners_def
  clampf_def List.map_filter_def upt_rec

lemmas mapper_eval = map_back_def c_div_def clampf_def

lemmas letterbox_eval = letterbox_def target_size_def MAX_STRIDE_def c_div_def int_of_float_def

lemmas qsort_eval = qsort_descent_inplace_def qsort_descent_inplace_range.simps
  partition_loop.simps scan_up.simps scan_down.simps in_range_def swap_def

lemma round32_quarter: "round32 False (1 / 4) = Fin (1 / 4)"
  by (simp add: f32_eval)

lemma round32_1083_4: "round32 False (1083 / 4) = Fin (1083 / 4)"
  by (simp add: f32_eval)

lemma round32_three_quarters: "round32 False (3 / 4) = Fin (3 / 4)"
  by (simp add: f32_eval)

section \<open>The Sorter orders the candidates\<close>

lemma scan_up_spec:
  assumes "0 \<le> i" "i \<le> k" "k < int (length xs)" "\<not> fgt (prob (xs ! nat k)) p"
  shows "\<exists>i'. scan_up xs p i = Some i' \<and> i \<le> i' \<and> i' \<le> k
           \<and> (\<forall>m. i \<le> m \<and> m < i' \<longrightarrow> fgt (prob (xs ! nat m)) p)"
  using assms
proof (induction xs p i rule: scan_up.induct)
  case (1 objects p i)
  have inr: "in_range objects i" using "1.prems" by (simp add: in_range_def)
  show ?case
  proof (cases "fgt (prob (objects ! nat i)) p")
    case True
    then have "i \<noteq> k" using "1.prems" by auto
    then have ik: "i + 1 \<le> k" using "1.prems" by simp
    have "0 \<le> i + 1" using "1.prems" by simp
    from "1.IH" [OF _ True this ik "1.prems"(3,4)] inr
    obtain i' where i': "scan_up objects p (i + 1) = Some i'" "i + 1 \<le> i'" "i' \<le> k"
      "\<forall>m. i + 1 \<le> m \<and> m < i' \<longrightarrow> fgt (prob (objects ! nat m)) p" by auto
    have "scan_up objects p i = Some i'" using inr True i'(1) by (subst scan_up.simps) simp
    moreover have "\<forall>m. i \<le> m \<and> m < i' \<longrightarrow> fgt (prob (objects ! nat m)) p"
    proof (intro allI impI)
      fix m assume m: "i \<le> m \<and> m < i'"
      show "fgt (prob (objects ! nat m)) p"
      proof (cases "m = i")
        case True
        then show ?thesis using \<open>fgt (prob (objects ! nat i)) p\<close> by simp
      next
        case False
        then show ?thesis using m i'(4) by simp
      qed
    qed
    ultimately show ?thesis using i'(2,3) by auto
  next
    case False
    then have "scan_up objects p i = Some i" using inr by (subst scan_up.simps) simp
    then show ?thesis using "1.prems" by auto
  qed
qed

lemma scan_down_spec:
  assumes "0 \<le> k" "k \<le> j" "j < int (length xs)" "\<not> flt (prob (xs ! nat k)) p"
  shows "\<exists>j'. scan_down xs p j = Some j' \<and> k \<le> j' \<and> j' \<le> j
           \<and> (\<forall>m. j' < m \<and> m \<le> j \<longrightarrow> flt (prob (xs ! nat m)) p)"
  using assms
proof (induction xs p j rule: scan_down.induct)
  case (1 objects p j)
  have inr: "in_range objects j" using "1.prems" by (simp add: in_range_def)
  show ?case
  proof (cases "flt (prob (objects ! nat j)) p")
    case True
    then have "j \<noteq> k" using "1.prems" by auto
    then have kj: "k \<le> j - 1" using "1.prems" by simp
    have "j - 1 < int (length objects)" using "1.prems" by simp
    from "1.IH" [OF _ True "1.prems"(1) kj this "1.prems"(4)] inr
    obtain j' where j': "scan_down objects p (j - 1) = Some j'" "k \<le> j'" "j' \<le> j - 1"
      "\<forall>m. j' < m \<and> m \<le> j - 1 \<longrightarrow> flt (prob (objects ! nat m)) p" by auto
    have "scan_down objects p j = Some j'" using inr True j'(1) by (subst scan_down.simps) simp
    moreover have "\<forall>m. j' < m \<and> m \<le> j \<longrightarrow> flt (prob (objects ! nat m)) p"
    proof (intro allI impI)
      fix m assume m: "j' < m \<and> m \<le> j"
      show "flt (prob (objects ! nat m)) p"
      proof (cases "m = j")
        case True
        then show ?thesis using \<open>flt (prob (objects ! nat j)) p\<close> by simp
      next
        case False
        then show ?thesis using m j'(4) by simp
      qed
    qed
    ultimately show ?thesis using j'(2,3) by auto
  next
    case False
    then have "scan_down objects p j = Some j" using inr by (subst scan_down.simps) simp
    then show ?thesis using "1.prems" by auto
  qed
qed

lemma scan_up_result:
  "scan_up xs p i = Some i' \<Longrightarrow> in_range xs i' \<and> \<not> fgt (prob (xs ! nat i')) p"
proof (induction xs p i rule: scan_up.induct)
  case (1 objects p i)
  from "1.prems" show ?case
    by (subst (asm) scan_up.simps) (use "1.IH" in \<open>auto split: if_splits\<close>)
qed

lemma scan_down_result:
  "scan_down xs p j = Some j' \<Longrightarrow> in_range xs j' \<and> \<not> flt (prob (xs ! nat j')) p"
proof (induction xs p j rule: scan_down.induct)
  case (1 objects p j)
  from "1.prems" show ?case
    by (subst (asm) scan_down.simps) (use "1.IH" in \<open>auto split: if_splits\<close>)
qed

lemma length_swap [simp]: "length (swap xs i j) = length xs"
  by (simp add: swap_def)

lemma mset_swap_int: "in_range xs i \<Longrightarrow> in_range xs j \<Longrightarrow> mset (swap xs i j) = mset xs"
  using mset_swap [of "nat j" xs "nat i"] by (simp add: swap_def in_range_def nat_less_iff)

lemma nth_swap:
  "in_range xs i \<Longrightarrow> in_range xs j \<Longrightarrow> k < length xs \<Longrightarrow>
   swap xs i j ! k = (if k = nat j then xs ! nat i else if k = nat i then xs ! nat j else xs ! k)"
  by (auto simp: swap_def in_range_def nth_list_update)

lemma partition_loop_spec:
  assumes "0 \<le> left" "right < int (length xs)" "left \<le> i" "j \<le> right"
    and "i \<le> j \<longrightarrow> (\<exists>k. i \<le> k \<and> k \<le> right \<and> \<not> fgt (prob (xs ! nat k)) p)"
    and "i \<le> j \<longrightarrow> (\<exists>k. left \<le> k \<and> k \<le> j \<and> \<not> flt (prob (xs ! nat k)) p)"
    and "\<forall>k. left \<le> k \<and> k < i \<longrightarrow> \<not> flt (prob (xs ! nat k)) p"
    and "\<forall>k. j < k \<and> k \<le> right \<longrightarrow> \<not> fgt (prob (xs ! nat k)) p"
  shows "\<exists>ys i' j'. partition_loop xs p i j = Some (ys, i', j')
           \<and> length ys = length xs \<and> mset ys = mset xs
           \<and> (\<forall>k::nat. int k < left \<or> right < int k \<longrightarrow> ys ! k = xs ! k)
           \<and> (i \<le> j + 1 \<longrightarrow> j' < i')
           \<and> (\<forall>k. left \<le> k \<and> k < i' \<longrightarrow> \<not> flt (prob (ys ! nat k)) p)
           \<and> (\<forall>k. j' < k \<and> k \<le> right \<longrightarrow> \<not> fgt (prob (ys ! nat k)) p)"
  using assms
proof (induction xs p i j rule: partition_loop.induct)
  case (1 objects p i j)
  show ?case
  proof (cases "i \<le> j")
    case False
    then have "partition_loop objects p i j = Some (objects, i, j)"
      by (subst partition_loop.simps) simp
    then show ?thesis using "1.prems" False by simp
  next
    case True
    from "1.prems"(5) True obtain ku where
      ku: "i \<le> ku" "ku \<le> right" "\<not> fgt (prob (objects ! nat ku)) p" by auto
    from "1.prems"(6) True obtain kd where
      kd: "left \<le> kd" "kd \<le> j" "\<not> flt (prob (objects ! nat kd)) p" by auto
    have i0: "0 \<le> i" using "1.prems" by simp
    have "ku < int (length objects)" using ku "1.prems" by simp
    from scan_up_spec [OF i0 ku(1) this ku(3)] obtain i1 where
      su: "scan_up objects p i = Some i1" and i1: "i \<le> i1" "i1 \<le> ku"
      and upass: "\<forall>m. i \<le> m \<and> m < i1 \<longrightarrow> fgt (prob (objects ! nat m)) p" by auto
    have kd0: "0 \<le> kd" using kd "1.prems" by simp
    have "j < int (length objects)" using "1.prems" by simp
    from scan_down_spec [OF kd0 kd(2) this kd(3)] obtain j1 where
      sd: "scan_down objects p j = Some j1" and j1: "kd \<le> j1" "j1 \<le> j"
      and dpass: "\<forall>m. j1 < m \<and> m \<le> j \<longrightarrow> flt (prob (objects ! nat m)) p" by auto
    have ri: "in_range objects i1" "\<not> fgt (prob (objects ! nat i1)) p"
      using scan_up_result [OF su] by simp_all
    have rj: "in_range objects j1" "\<not> flt (prob (objects ! nat j1)) p"
      using scan_down_result [OF sd] by simp_all
    have left_part: "\<forall>k. left \<le> k \<and> k < i1 \<longrightarrow> \<not> flt (prob (objects ! nat k)) p"
    proof (intro allI impI)
      fix k assume k: "left \<le> k \<and> k < i1"
      show "\<not> flt (prob (objects ! nat k)) p"
      proof (cases "k < i")
        case True
        then show ?thesis using k "1.prems"(7) by simp
      next
        case False
        then have "fgt (prob (objects ! nat k)) p" using upass k by simp
        then show ?thesis by (auto simp: fgt_def dest: flt_asym)
      qed
    qed
    have right_part: "\<forall>k. j1 < k \<and> k \<le> right \<longrightarrow> \<not> fgt (prob (objects ! nat k)) p"
    proof (intro allI impI)
      fix k assume k: "j1 < k \<and> k \<le> right"
      show "\<not> fgt (prob (objects ! nat k)) p"
      proof (cases "j < k")
        case True
        then show ?thesis using k "1.prems"(8) by simp
      next
        case False
        then have "flt (prob (objects ! nat k)) p" using dpass k by simp
        then show ?thesis by (auto simp: fgt_def dest: flt_asym)
      qed
    qed
    show ?thesis
    proof (cases "i1 \<le> j1")
      case nsw: False
      have eq: "partition_loop objects p i j = Some (objects, i1, j1)"
        using True su sd nsw
        by (subst partition_loop.simps, simp, subst partition_loop.simps, simp)
      show ?thesis using eq left_part right_part nsw by simp
    next
      case sw: True
      let ?zs = "swap objects i1 j1"
      have len: "length ?zs = length objects" by simp
      have ms: "mset ?zs = mset objects" using ri(1) rj(1) by (rule mset_swap_int)
      have nth: "\<And>k. k < length objects \<Longrightarrow> ?zs ! k =
          (if k = nat j1 then objects ! nat i1 else if k = nat i1 then objects ! nat j1
           else objects ! k)"
        using ri(1) rj(1) by (rule nth_swap)
      have i1b: "0 \<le> i1" "i1 < int (length objects)" using ri(1) by (simp_all add: in_range_def)
      have j1b: "0 \<le> j1" "j1 < int (length objects)" using rj(1) by (simp_all add: in_range_def)
      have nthi: "\<And>k. 0 \<le> k \<Longrightarrow> k < int (length objects) \<Longrightarrow> ?zs ! nat k =
          (if k = j1 then objects ! nat i1 else if k = i1 then objects ! nat j1
           else objects ! nat k)"
        using nth i1b j1b by (auto simp: nat_eq_iff)
      have eq: "partition_loop objects p i j = partition_loop ?zs p (i1 + 1) (j1 - 1)"
        using True su sd sw by (subst partition_loop.simps) simp
      have p1: "0 \<le> left" "right < int (length ?zs)" "left \<le> i1 + 1" "j1 - 1 \<le> right"
        using "1.prems" i1 j1 by simp_all
      have p5: "i1 + 1 \<le> j1 - 1 \<longrightarrow>
          (\<exists>k. i1 + 1 \<le> k \<and> k \<le> right \<and> \<not> fgt (prob (?zs ! nat k)) p)"
      proof
        assume a: "i1 + 1 \<le> j1 - 1"
        have "?zs ! nat j1 = objects ! nat i1" using nthi [of j1] j1b by simp
        then have "\<not> fgt (prob (?zs ! nat j1)) p" using ri(2) by simp
        moreover have "i1 + 1 \<le> j1" "j1 \<le> right" using a j1 "1.prems" by simp_all
        ultimately show "\<exists>k. i1 + 1 \<le> k \<and> k \<le> right \<and> \<not> fgt (prob (?zs ! nat k)) p"
          by blast
      qed
      have p6: "i1 + 1 \<le> j1 - 1 \<longrightarrow>
          (\<exists>k. left \<le> k \<and> k \<le> j1 - 1 \<and> \<not> flt (prob (?zs ! nat k)) p)"
      proof
        assume a: "i1 + 1 \<le> j1 - 1"
        then have "i1 \<noteq> j1" by simp
        then have "?zs ! nat i1 = objects ! nat j1" using nthi [of i1] i1b by simp
        then have "\<not> flt (prob (?zs ! nat i1)) p" using rj(2) by simp
        moreover have "left \<le> i1" "i1 \<le> j1 - 1" using a i1 "1.prems" by simp_all
        ultimately show "\<exists>k. left \<le> k \<and> k \<le> j1 - 1 \<and> \<not> flt (prob (?zs ! nat k)) p"
          by blast
      qed
      have p7: "\<forall>k. left \<le> k \<and> k < i1 + 1 \<longrightarrow> \<not> flt (prob (?zs ! nat k)) p"
      proof (intro allI impI)
        fix k assume k: "left \<le> k \<and> k < i1 + 1"
        then have kb: "0 \<le> k" "k < int (length objects)" using "1.prems" i1b by simp_all
        show "\<not> flt (prob (?zs ! nat k)) p"
        proof (cases "k = i1")
          case True
          then have "?zs ! nat k = objects ! nat j1" using nthi [of i1] i1b by auto
          then show ?thesis using rj(2) by simp
        next
          case False
          then have "k < i1" using k by simp
          then have "?zs ! nat k = objects ! nat k" using nthi [OF kb] sw by simp
          then show ?thesis using left_part k \<open>k < i1\<close> by simp
        qed
      qed
      have p8: "\<forall>k. j1 - 1 < k \<and> k \<le> right \<longrightarrow> \<not> fgt (prob (?zs ! nat k)) p"
      proof (intro allI impI)
        fix k assume k: "j1 - 1 < k \<and> k \<le> right"
        then have kb: "0 \<le> k" "k < int (length objects)" using "1.prems" j1b by simp_all
        show "\<not> fgt (prob (?zs ! nat k)) p"
        proof (cases "k = j1")
          case True
          then have "?zs ! nat k = objects ! nat i1" using nthi [of j1] j1b by auto
          then show ?thesis using ri(2) by simp
        next
          case False
          then have "j1 < k" using k by simp
          then have "?zs ! nat k = objects ! nat k" using nthi [OF kb] sw by simp
          then show ?thesis using right_part k \<open>j1 < k\<close> by simp
        qed
      qed
      from "1.IH"(1) [OF True su sd sw p1 p5 p6 p7 p8]
      obtain ys i' j' where r: "partition_loop ?zs p (i1 + 1) (j1 - 1) = Some (ys, i', j')"
        "length ys = length ?zs" "mset ys = mset ?zs"
        "\<forall>k::nat. int k < left \<or> right < int k \<longrightarrow> ys ! k = ?zs ! k"
        "i1 + 1 \<le> j1 - 1 + 1 \<longrightarrow> j' < i'"
        "\<forall>k. left \<le> k \<and> k < i' \<longrightarrow> \<not> flt (prob (ys ! nat k)) p"
        "\<forall>k. j' < k \<and> k \<le> right \<longrightarrow> \<not> fgt (prob (ys ! nat k)) p"
        by blast
      have out: "\<forall>k::nat. int k < left \<or> right < int k \<longrightarrow> ys ! k = objects ! k"
      proof (intro allI impI)
        fix k :: nat assume k: "int k < left \<or> right < int k"
        have bnd: "left \<le> i1" "j1 \<le> right" "i1 \<le> right" "left \<le> j1"
          using i1 j1 "1.prems" sw kd by simp_all
        have ne: "k \<noteq> nat i1" "k \<noteq> nat j1"
        proof -
          show "k \<noteq> nat i1"
          proof
            assume "k = nat i1"
            then have "int k = i1" using i1b by simp
            then show False using k bnd by simp
          qed
          show "k \<noteq> nat j1"
          proof
            assume "k = nat j1"
            then have "int k = j1" using j1b by simp
            then show False using k bnd by simp
          qed
        qed
        show "ys ! k = objects ! k"
        proof (cases "k < length objects")
          case True
          have "?zs ! k = objects ! k" using nth [OF True] ne by simp
          moreover have "ys ! k = ?zs ! k" using r(4) k by blast
          ultimately show ?thesis by simp
        next
          case False
          then have "?zs ! k = objects ! k" using i1b j1b by (simp add: swap_def)
          moreover have "ys ! k = ?zs ! k" using r(4) k by blast
          ultimately show ?thesis by simp
        qed
      qed
      have mono: "i1 + 1 \<le> i' \<and> j' \<le> j1 - 1" using r(1) by (rule partition_loop_mono)
      have "j' < i'" using r(5) mono sw by (cases "i1 = j1") simp_all
      then show ?thesis using eq r(1,2,3,6,7) len ms out by simp
    qed
  qed
qed

lemma segment_mset:
  assumes "length ys = length xs" "mset ys = mset xs"
    and "\<forall>k::nat. k < l \<or> u \<le> k \<longrightarrow> ys ! k = xs ! k"
    and "l \<le> u" "u \<le> length xs"
  shows "mset (map ((!) ys) [l..<u]) = mset (map ((!) xs) [l..<u])"
proof -
  let ?n = "length xs"
  have "[0..<?n] = [0..<l] @ [l..<?n]"
    using upt_add_eq_append [of 0 l "?n - l"] assms(4,5) by simp
  moreover have "[l..<?n] = [l..<u] @ [u..<?n]"
    using upt_add_eq_append [of l u "?n - u"] assms(4,5) by simp
  ultimately have split: "[0..<?n] = [0..<l] @ [l..<u] @ [u..<?n]" by simp
  have xs: "xs = map ((!) xs) [0..<l] @ map ((!) xs) [l..<u] @ map ((!) xs) [u..<?n]"
    using map_nth [of xs] split by (metis map_append)
  have ys: "ys = map ((!) ys) [0..<l] @ map ((!) ys) [l..<u] @ map ((!) ys) [u..<?n]"
    using map_nth [of ys] split assms(1) by (metis map_append)
  have a: "map ((!) ys) [0..<l] = map ((!) xs) [0..<l]" using assms(3) by simp
  have b: "map ((!) ys) [u..<?n] = map ((!) xs) [u..<?n]" using assms(3) by simp
  have "mset ys = mset (map ((!) xs) [0..<l]) + mset (map ((!) ys) [l..<u])
      + mset (map ((!) xs) [u..<?n])"
    by (subst ys) (simp add: a b)
  moreover have "mset xs = mset (map ((!) xs) [0..<l]) + mset (map ((!) xs) [l..<u])
      + mset (map ((!) xs) [u..<?n])"
    by (subst xs) simp
  ultimately show ?thesis using assms(2) by simp
qed

lemma segment_perm:
  assumes "length ys = length xs" "mset ys = mset xs"
    and "\<forall>k::nat. int k < left \<or> right < int k \<longrightarrow> ys ! k = xs ! k"
    and "0 \<le> left" "right < int (length xs)" "left \<le> k" "k \<le> right"
  shows "\<exists>m. left \<le> m \<and> m \<le> right \<and> ys ! nat k = xs ! nat m"
proof -
  define l where "l = nat left"
  define u where "u = nat (right + 1)"
  have o: "\<forall>k::nat. k < l \<or> u \<le> k \<longrightarrow> ys ! k = xs ! k"
  proof (intro allI impI)
    fix k :: nat
    assume "k < l \<or> u \<le> k"
    then have "int k < left \<or> right < int k" unfolding l_def u_def by linarith
    then show "ys ! k = xs ! k" using assms(3) by blast
  qed
  have "l \<le> u" "u \<le> length xs" using assms unfolding l_def u_def by linarith+
  from segment_mset [OF assms(1,2) o this]
  have "set (map ((!) ys) [l..<u]) = set (map ((!) xs) [l..<u])"
    by (rule mset_eq_setD)
  moreover have "l \<le> nat k" "nat k < u" using assms unfolding l_def u_def by linarith+
  then have "ys ! nat k \<in> set (map ((!) ys) [l..<u])" by simp
  ultimately have "ys ! nat k \<in> set (map ((!) xs) [l..<u])" by simp
  then obtain n where n: "l \<le> n" "n < u" "ys ! nat k = xs ! n" by auto
  have "left \<le> int n" "int n \<le> right" using n assms unfolding l_def u_def by linarith+
  then show ?thesis using n(3) by (metis nat_int)
qed

lemma c_div_2_mid:
  assumes "0 \<le> left" "left \<le> right"
  shows "left \<le> c_div (left + right) 2 \<and> c_div (left + right) 2 \<le> right"
  using assms by (auto simp: c_div_def sgn_if)

lemma in_range_nth_mem: "in_range xs k \<Longrightarrow> xs ! nat k \<in> set xs"
  by (simp add: in_range_def nat_less_iff)

lemma qsort_range_spec:
  assumes "0 \<le> left" "right < int (length xs)" "left \<le> right"
  shows "\<exists>ys. qsort_descent_inplace_range xs left right = Some ys
           \<and> length ys = length xs \<and> mset ys = mset xs
           \<and> (\<forall>k::nat. int k < left \<or> right < int k \<longrightarrow> ys ! k = xs ! k)
           \<and> ((\<forall>ob\<in>set xs. prob ob \<noteq> NaN) \<longrightarrow>
                (\<forall>a b. left \<le> a \<and> a \<le> b \<and> b \<le> right \<longrightarrow>
                   fle (prob (ys ! nat b)) (prob (ys ! nat a))))"
  using assms
proof (induction "nat (right - left)" arbitrary: xs left right rule: less_induct)
  case less
  define m where "m = c_div (left + right) 2"
  define p where "p = prob (xs ! nat m)"
  have m: "left \<le> m" "m \<le> right"
    using c_div_2_mid [OF less.prems(1,3)] by (simp_all add: m_def)
  have inr: "in_range xs m" using m less.prems by (simp add: in_range_def)
  have sent_u: "left \<le> right \<longrightarrow> (\<exists>k. left \<le> k \<and> k \<le> right \<and> \<not> fgt (prob (xs ! nat k)) p)"
    using m by (auto simp: p_def)
  have sent_d: "left \<le> right \<longrightarrow> (\<exists>k. left \<le> k \<and> k \<le> right \<and> \<not> flt (prob (xs ! nat k)) p)"
    using m by (auto simp: p_def)
  have inv_l: "\<forall>k. left \<le> k \<and> k < left \<longrightarrow> \<not> flt (prob (xs ! nat k)) p"
    and inv_r: "\<forall>k. right < k \<and> k \<le> right \<longrightarrow> \<not> fgt (prob (xs ! nat k)) p" by auto
  from partition_loop_spec [OF less.prems(1,2) order_refl order_refl sent_u sent_d inv_l inv_r]
  obtain ys1 i j where
    pl: "partition_loop xs p left right = Some (ys1, i, j)"
    and l1: "length ys1 = length xs" and ms1: "mset ys1 = mset xs"
    and out1: "\<forall>k::nat. int k < left \<or> right < int k \<longrightarrow> ys1 ! k = xs ! k"
    and ji: "j < i"
    and lp: "\<forall>k. left \<le> k \<and> k < i \<longrightarrow> \<not> flt (prob (ys1 ! nat k)) p"
    and rp: "\<forall>k. j < k \<and> k \<le> right \<longrightarrow> \<not> fgt (prob (ys1 ! nat k)) p"
    using less.prems(3) by auto
  have prog: "left < i" "j < right"
    using partition_loop_progress [of xs m left right ys1 i j] pl m by (simp_all add: p_def)
  have mono: "left \<le> i" "j \<le> right" using partition_loop_mono [OF pl] by simp_all
  \<comment> \<open>first recursive call\<close>
  have "\<exists>ys2. (if left < j then qsort_descent_inplace_range ys1 left j else Some ys1) = Some ys2
      \<and> length ys2 = length ys1 \<and> mset ys2 = mset ys1
      \<and> (\<forall>k::nat. int k < left \<or> j < int k \<longrightarrow> ys2 ! k = ys1 ! k)
      \<and> ((\<forall>ob\<in>set ys1. prob ob \<noteq> NaN) \<longrightarrow>
           (\<forall>a b. left \<le> a \<and> a \<le> b \<and> b \<le> j \<longrightarrow>
              fle (prob (ys2 ! nat b)) (prob (ys2 ! nat a))))"
  proof (cases "left < j")
    case True
    have "nat (j - left) < nat (right - left)" using True prog by simp
    moreover have "j < int (length ys1)" using prog less.prems l1 by simp
    ultimately show ?thesis using less.hyps [of j left ys1] less.prems(1) True by simp
  next
    case False
    have "\<forall>a b. left \<le> a \<and> a \<le> b \<and> b \<le> j \<longrightarrow> (\<forall>ob\<in>set ys1. prob ob \<noteq> NaN) \<longrightarrow>
        fle (prob (ys1 ! nat b)) (prob (ys1 ! nat a))"
    proof (intro allI impI)
      fix a b assume ab: "left \<le> a \<and> a \<le> b \<and> b \<le> j" and nn: "\<forall>ob\<in>set ys1. prob ob \<noteq> NaN"
      have "a = b" using ab False by simp
      moreover have "nat a < length ys1" using ab prog less.prems l1 by linarith
      then have "prob (ys1 ! nat a) \<noteq> NaN" using nn by simp
      ultimately show "fle (prob (ys1 ! nat b)) (prob (ys1 ! nat a))" by (simp add: fle_refl)
    qed
    then show ?thesis using False by simp
  qed
  then obtain ys2 where
    c1: "(if left < j then qsort_descent_inplace_range ys1 left j else Some ys1) = Some ys2"
    and l2: "length ys2 = length ys1" and ms2: "mset ys2 = mset ys1"
    and out2: "\<forall>k::nat. int k < left \<or> j < int k \<longrightarrow> ys2 ! k = ys1 ! k"
    and s2: "(\<forall>ob\<in>set ys1. prob ob \<noteq> NaN) \<longrightarrow>
           (\<forall>a b. left \<le> a \<and> a \<le> b \<and> b \<le> j \<longrightarrow>
              fle (prob (ys2 ! nat b)) (prob (ys2 ! nat a)))"
    by blast
  \<comment> \<open>second recursive call\<close>
  have i0: "0 \<le> i" using mono less.prems by simp
  have "\<exists>ys3. (if i < right then qsort_descent_inplace_range ys2 i right else Some ys2) = Some ys3
      \<and> length ys3 = length ys2 \<and> mset ys3 = mset ys2
      \<and> (\<forall>k::nat. int k < i \<or> right < int k \<longrightarrow> ys3 ! k = ys2 ! k)
      \<and> ((\<forall>ob\<in>set ys2. prob ob \<noteq> NaN) \<longrightarrow>
           (\<forall>a b. i \<le> a \<and> a \<le> b \<and> b \<le> right \<longrightarrow>
              fle (prob (ys3 ! nat b)) (prob (ys3 ! nat a))))"
  proof (cases "i < right")
    case True
    have "nat (right - i) < nat (right - left)" using True prog by simp
    moreover have "right < int (length ys2)" using less.prems l1 l2 by simp
    ultimately show ?thesis using less.hyps [of right i ys2] i0 True by simp
  next
    case False
    have "\<forall>a b. i \<le> a \<and> a \<le> b \<and> b \<le> right \<longrightarrow> (\<forall>ob\<in>set ys2. prob ob \<noteq> NaN) \<longrightarrow>
        fle (prob (ys2 ! nat b)) (prob (ys2 ! nat a))"
    proof (intro allI impI)
      fix a b assume ab: "i \<le> a \<and> a \<le> b \<and> b \<le> right" and nn: "\<forall>ob\<in>set ys2. prob ob \<noteq> NaN"
      have "a = b" using ab False by simp
      moreover have "nat a < length ys2" using ab i0 less.prems l1 l2 by linarith
      then have "prob (ys2 ! nat a) \<noteq> NaN" using nn by simp
      ultimately show "fle (prob (ys2 ! nat b)) (prob (ys2 ! nat a))" by (simp add: fle_refl)
    qed
    then show ?thesis using False by simp
  qed
  then obtain ys3 where
    c2: "(if i < right then qsort_descent_inplace_range ys2 i right else Some ys2) = Some ys3"
    and l3: "length ys3 = length ys2" and ms3: "mset ys3 = mset ys2"
    and out3: "\<forall>k::nat. int k < i \<or> right < int k \<longrightarrow> ys3 ! k = ys2 ! k"
    and s3: "(\<forall>ob\<in>set ys2. prob ob \<noteq> NaN) \<longrightarrow>
           (\<forall>a b. i \<le> a \<and> a \<le> b \<and> b \<le> right \<longrightarrow>
              fle (prob (ys3 ! nat b)) (prob (ys3 ! nat a)))"
    by blast
  have res: "qsort_descent_inplace_range xs left right = Some ys3"
    using inr pl c1 c2 by (subst qsort_descent_inplace_range.simps) (simp add: m_def p_def)
  have out: "\<forall>k::nat. int k < left \<or> right < int k \<longrightarrow> ys3 ! k = xs ! k"
  proof (intro allI impI)
    fix k :: nat assume k: "int k < left \<or> right < int k"
    then have "ys3 ! k = ys2 ! k" using out3 mono by force
    moreover have "ys2 ! k = ys1 ! k" using out2 k mono by force
    moreover have "ys1 ! k = xs ! k" using out1 k by blast
    ultimately show "ys3 ! k = xs ! k" by simp
  qed
  have srt: "\<forall>a b. left \<le> a \<and> a \<le> b \<and> b \<le> right \<longrightarrow>
      fle (prob (ys3 ! nat b)) (prob (ys3 ! nat a))" if nn: "\<forall>ob\<in>set xs. prob ob \<noteq> NaN"
  proof -
    have set1: "set ys1 = set xs" using ms1 by (rule mset_eq_setD)
    have set2: "set ys2 = set xs" using ms2 set1 mset_eq_setD by blast
    have set3: "set ys3 = set xs" using ms3 set2 mset_eq_setD by blast
    have nn1: "\<forall>ob\<in>set ys1. prob ob \<noteq> NaN" and nn2: "\<forall>ob\<in>set ys2. prob ob \<noteq> NaN"
      and nn3: "\<forall>ob\<in>set ys3. prob ob \<noteq> NaN"
      using nn set1 set2 set3 by simp_all
    have pn: "p \<noteq> NaN" using nn in_range_nth_mem [OF inr] by (simp add: p_def)
    have len3: "length ys3 = length xs" using l1 l2 l3 by simp
    have nn3k: "prob (ys3 ! nat k) \<noteq> NaN" if "left \<le> k" "k \<le> right" for k
    proof -
      have "nat k < length ys3" using that less.prems len3 by linarith
      then show ?thesis using nn3 by simp
    qed
    \<comment> \<open>left of \<open>i\<close> nothing is below the pivot\<close>
    have ge: "fle p (prob (ys3 ! nat k))" if k: "left \<le> k" "k < i" "k \<le> right" for k
    proof -
      have "\<not> flt (prob (ys3 ! nat k)) p"
      proof (cases "k \<le> j")
        case True
        have "ys3 ! nat k = ys2 ! nat k" using out3 k less.prems by simp
        moreover obtain n where n: "left \<le> n" "n \<le> j" "ys2 ! nat k = ys1 ! nat n"
          using segment_perm [OF l2 ms2 out2 less.prems(1) _ k(1) True] prog less.prems l1
          by auto
        moreover have "\<not> flt (prob (ys1 ! nat n)) p" using lp n ji by simp
        ultimately show ?thesis by simp
      next
        case False
        have "ys3 ! nat k = ys2 ! nat k" using out3 k less.prems by simp
        moreover have "ys2 ! nat k = ys1 ! nat k" using out2 False k less.prems by simp
        ultimately show ?thesis using lp k by simp
      qed
      then show ?thesis using not_flt_fle [OF _ pn] nn3k [of k] k mono ji by simp
    qed
    \<comment> \<open>right of \<open>j\<close> nothing is above the pivot\<close>
    have le: "fle (prob (ys3 ! nat k)) p" if k: "j < k" "k \<le> right" "left \<le> k" for k
    proof -
      have "\<not> fgt (prob (ys3 ! nat k)) p"
      proof (cases "i \<le> k")
        case True
        have r3: "right < int (length ys2)" using less.prems l1 l2 by simp
        obtain n where n: "i \<le> n" "n \<le> right" "ys3 ! nat k = ys2 ! nat n"
          using segment_perm [OF l3 ms3 out3 i0 r3 True k(2)] by auto
        moreover have "ys2 ! nat n = ys1 ! nat n" using out2 n ji i0 by simp
        moreover have "\<not> fgt (prob (ys1 ! nat n)) p" using rp n ji by simp
        ultimately show ?thesis by simp
      next
        case False
        have k0: "0 \<le> k" using k less.prems by simp
        have "ys3 ! nat k = ys2 ! nat k" using out3 False k0 by simp
        moreover have "ys2 ! nat k = ys1 ! nat k" using out2 k k0 by simp
        ultimately show ?thesis using rp k by simp
      qed
      then have "\<not> flt p (prob (ys3 ! nat k))" by (simp add: fgt_def)
      then show ?thesis using not_flt_fle [OF pn] nn3k [of k] k by simp
    qed
    show ?thesis
    proof (intro allI impI)
      fix a b assume ab: "left \<le> a \<and> a \<le> b \<and> b \<le> right"
      show "fle (prob (ys3 ! nat b)) (prob (ys3 ! nat a))"
      proof (cases "b \<le> j")
        case True
        have a0: "0 \<le> a" using ab less.prems by simp
        have "ys3 ! nat a = ys2 ! nat a" "ys3 ! nat b = ys2 ! nat b"
          using out3 True ab ji a0 by simp_all
        then show ?thesis using s2 nn1 ab True by simp
      next
        case bj: False
        show ?thesis
        proof (cases "i \<le> a")
          case True
          then show ?thesis using s3 nn2 ab by simp
        next
          case False
          have "fle p (prob (ys3 ! nat a))" using ge ab False by simp
          moreover have "fle (prob (ys3 ! nat b)) p" using le ab bj by simp
          ultimately show ?thesis using fle_trans by blast
        qed
      qed
    qed
  qed
  show ?case using res l1 l2 l3 ms1 ms2 ms3 out srt by simp
qed

lemma qsort_descent_inplace_total:
  "\<exists>ys. qsort_descent_inplace xs = Some ys \<and> mset ys = mset xs"
proof (cases "xs = []")
  case True
  then show ?thesis by (simp add: qsort_descent_inplace_def)
next
  case False
  then have b: "(0::int) \<le> 0" "int (length xs) - 1 < int (length xs)" "0 \<le> int (length xs) - 1"
    by simp_all
  from qsort_range_spec [OF b] show ?thesis using False by (auto simp: qsort_descent_inplace_def)
qed

text \<open>
  C1. For every list of candidate detections the Sorter returns (it never reads outside
  the vector), its result is a permutation of the list, and every adjacent pair of the
  result is ordered: the earlier probability is greater than or equal to the later one.
  A Candidate Detection's probability exceeds the confidence threshold, so it is not a
  NaN; the order is stated for such lists (\<^verbatim>\<open>>=\<close> is false on a NaN), the permutation for
  every list.
\<close>

theorem qsort_descent_inplace_sorted_permutation:
  "\<exists>ys. qsort_descent_inplace xs = Some ys \<and> mset ys = mset xs
     \<and> ((\<forall>ob\<in>set xs. prob ob \<noteq> NaN) \<longrightarrow>
          (\<forall>k. Suc k < length ys \<longrightarrow> fle (prob (ys ! Suc k)) (prob (ys ! k))))"
proof (cases "xs = []")
  case True
  then show ?thesis by (simp add: qsort_descent_inplace_def)
next
  case False
  then have b: "(0::int) \<le> 0" "int (length xs) - 1 < int (length xs)" "0 \<le> int (length xs) - 1"
    by simp_all
  from qsort_range_spec [OF b] obtain ys where
    r: "qsort_descent_inplace_range xs 0 (int (length xs) - 1) = Some ys"
    and len: "length ys = length xs" and ms: "mset ys = mset xs"
    and srt: "(\<forall>ob\<in>set xs. prob ob \<noteq> NaN) \<longrightarrow>
       (\<forall>a b. 0 \<le> a \<and> a \<le> b \<and> b \<le> int (length xs) - 1 \<longrightarrow>
          fle (prob (ys ! nat b)) (prob (ys ! nat a)))"
    by blast
  have "\<forall>k. Suc k < length ys \<longrightarrow> fle (prob (ys ! Suc k)) (prob (ys ! k))"
    if nn: "\<forall>ob\<in>set xs. prob ob \<noteq> NaN"
  proof (intro allI impI)
    fix k assume k: "Suc k < length ys"
    have "0 \<le> int k \<and> int k \<le> int (Suc k) \<and> int (Suc k) \<le> int (length xs) - 1"
      using k len by simp
    then have "fle (prob (ys ! nat (int (Suc k)))) (prob (ys ! nat (int k)))"
      using srt nn by blast
    then show "fle (prob (ys ! Suc k)) (prob (ys ! k))" by (simp only: nat_int)
  qed
  then show ?thesis using r ms False by (simp add: qsort_descent_inplace_def)
qed

definition det :: "int \<Rightarrow> real \<Rightarrow> Object" where
  "det l p = \<lparr>rect = Rect0, label = l, prob = Fin p\<rparr>"

lemma qsort_example:
  "qsort_descent_inplace [det 0 (1/2), det 1 (7/8), det 2 (1/4)]
     = Some [det 1 (7/8), det 0 (1/2), det 2 (1/4)]"
  by (simp add: qsort_descent_inplace_def qsort_descent_inplace_range.simps
      partition_loop.simps scan_up.simps scan_down.simps in_range_def c_div_def swap_def
      det_def flt_def fgt_def)

theorem qsort_descent_inplace_sorted_permutation_witness:
  "qsort_descent_inplace [det 0 (1/2), det 1 (7/8), det 2 (1/4)]
     = Some [det 1 (7/8), det 0 (1/2), det 2 (1/4)]
   \<and> mset [det 1 (7/8), det 0 (1/2), det 2 (1/4)]
     = mset [det 0 (1/2), det 1 (7/8), det 2 (1/4)]
   \<and> fle (Fin (1/2)) (Fin (7/8)) \<and> fle (Fin (1/4)) (Fin (1/2))"
proof -
  let ?xs = "[det 0 (1/2), det 1 (7/8), det 2 (1/4)]"
  let ?ys = "[det 1 (7/8), det 0 (1/2), det 2 (1/4)]"
  have nn: "\<forall>ob\<in>set ?xs. prob ob \<noteq> NaN" by (simp add: det_def)
  from qsort_descent_inplace_sorted_permutation [of ?xs] qsort_example nn
  have ms: "mset ?ys = mset ?xs"
    and adj: "\<forall>k. Suc k < length ?ys \<longrightarrow> fle (prob (?ys ! Suc k)) (prob (?ys ! k))"
    by auto
  have "fle (prob (?ys ! Suc 0)) (prob (?ys ! 0))"
    using adj [rule_format, of 0] by simp
  moreover have "fle (prob (?ys ! Suc (Suc 0))) (prob (?ys ! Suc 0))"
    using adj [rule_format, of "Suc 0"] by simp
  ultimately show ?thesis using qsort_example ms by (simp add: det_def)
qed

section \<open>The NMS Filter keeps no pair above the threshold\<close>

lemma nms_keep_fold:
  "fold (\<lambda>j keep. if suppresses fo ar thr ag i j then False else keep) picked acc
     = (acc \<and> (\<forall>j\<in>set picked. \<not> suppresses fo ar thr ag i j))"
  by (induction picked arbitrary: acc) auto

lemma nms_keep_iff:
  "nms_keep fo ar thr ag i picked = (\<forall>j\<in>set picked. \<not> suppresses fo ar thr ag i j)"
  by (simp add: nms_keep_def nms_keep_fold)

lemma nms_invariant:
  "sorted_wrt (<) (fold (nms_step fo ar thr ag) [0..<m] [])
   \<and> (\<forall>k\<in>set (fold (nms_step fo ar thr ag) [0..<m] []). k < m)
   \<and> (\<forall>p q. p < q \<and> q < length (fold (nms_step fo ar thr ag) [0..<m] []) \<longrightarrow>
         \<not> suppresses fo ar thr ag (fold (nms_step fo ar thr ag) [0..<m] [] ! q)
             (fold (nms_step fo ar thr ag) [0..<m] [] ! p))"
proof (induction m)
  case 0
  show ?case by simp
next
  case (Suc m)
  define P where "P = fold (nms_step fo ar thr ag) [0..<m] []"
  have ih: "sorted_wrt (<) P" "\<forall>k\<in>set P. k < m"
    "\<forall>p q. p < q \<and> q < length P \<longrightarrow> \<not> suppresses fo ar thr ag (P ! q) (P ! p)"
    using Suc by (simp_all add: P_def)
  have step: "fold (nms_step fo ar thr ag) [0..<Suc m] [] = nms_step fo ar thr ag m P"
    by (simp add: P_def)
  show ?case
  proof (cases "nms_keep fo ar thr ag m P")
    case False
    then have "nms_step fo ar thr ag m P = P" by (simp add: nms_step_def)
    then show ?thesis unfolding step using ih by (auto simp: less_Suc_eq)
  next
    case True
    then have eq: "nms_step fo ar thr ag m P = P @ [m]" by (simp add: nms_step_def)
    have keep: "\<forall>j\<in>set P. \<not> suppresses fo ar thr ag m j" using True by (simp add: nms_keep_iff)
    have a: "sorted_wrt (<) (P @ [m])" using ih(1,2) by (simp add: sorted_wrt_append)
    have b: "\<forall>k\<in>set (P @ [m]). k < Suc m" using ih(2) by (auto simp: less_Suc_eq)
    have c: "\<forall>p q. p < q \<and> q < length (P @ [m]) \<longrightarrow>
        \<not> suppresses fo ar thr ag ((P @ [m]) ! q) ((P @ [m]) ! p)"
    proof (intro allI impI)
      fix p q assume pq: "p < q \<and> q < length (P @ [m])"
      show "\<not> suppresses fo ar thr ag ((P @ [m]) ! q) ((P @ [m]) ! p)"
      proof (cases "q < length P")
        case True
        then show ?thesis using pq ih(3) by (simp add: nth_append)
      next
        case False
        then have q: "q = length P" using pq by simp
        then have "(P @ [m]) ! q = m" "(P @ [m]) ! p = P ! p" "P ! p \<in> set P"
          using pq by (simp_all add: nth_append)
        then show ?thesis using keep by simp
      qed
    qed
    show ?thesis unfolding step eq using a b c by blast
  qed
qed

lemma suppresses_iou:
  assumes "i < length fo" "j < length fo"
  shows "suppresses fo (map (\<lambda>ob. rect_area (rect ob)) fo) thr ag i j
     = ((ag \<or> label (fo ! i) = label (fo ! j)) \<and> fgt (iou (fo ! i) (fo ! j)) thr)"
  using assms by (auto simp: suppresses_def union_area_def iou_def)

lemma nms_picked_sorted:
  "sorted_wrt (<) (nms_sorted_bboxes fo thr ag)
   \<and> (\<forall>k\<in>set (nms_sorted_bboxes fo thr ag). k < length fo)"
  using nms_invariant [of fo _ thr ag "length fo"] by (simp add: nms_sorted_bboxes_def)

lemma subseq_map_nth:
  "sorted_wrt (<) ks \<Longrightarrow> \<forall>k\<in>set ks. n \<le> k \<and> k < length xs \<Longrightarrow>
   subseq (map ((!) xs) ks) (drop n xs)"
proof (induction ks arbitrary: n)
  case Nil
  show ?case by simp
next
  case (Cons k ks)
  have k: "n \<le> k" "k < length xs" using Cons.prems(2) by simp_all
  have "\<forall>k'\<in>set ks. Suc k \<le> k' \<and> k' < length xs" using Cons.prems by auto
  moreover have "sorted_wrt (<) ks" using Cons.prems(1) by simp
  ultimately have ih: "subseq (map ((!) xs) ks) (drop (Suc k) xs)" by (rule Cons.IH [rotated])
  have "drop n xs = take (k - n) (drop n xs) @ drop (k - n) (drop n xs)"
    by (rule append_take_drop_id [symmetric])
  also have "drop (k - n) (drop n xs) = drop k xs" using k by simp
  also have "drop k xs = xs ! k # drop (Suc k) xs" using k by (simp add: Cons_nth_drop_Suc)
  finally have d: "drop n xs = take (k - n) (drop n xs) @ xs ! k # drop (Suc k) xs" .
  have "subseq (xs ! k # map ((!) xs) ks) (xs ! k # drop (Suc k) xs)" using ih by simp
  then have "subseq (xs ! k # map ((!) xs) ks) (take (k - n) (drop n xs) @ xs ! k # drop (Suc k) xs)"
    by (rule list_emb_append2)
  then show ?case using d by simp
qed

text \<open>
  C2. With \<open>class_agnostic = false\<close>, for every candidate list and every threshold, the
  comparison \<^verbatim>\<open>IoU > nms_threshold\<close> that the filter made for any two distinct detections
  of its output that share a label (the later detection against the earlier, kept one) is
  false. So \<^verbatim>\<open>IoU <= nms_threshold\<close> holds for the pair unless the IoU or the threshold is
  a NaN; the IoU of two boxes of zero area is one, \<open>0 / 0\<close>, and such a pair is kept
  although \<^verbatim>\<open>IoU <= nms_threshold\<close> is false for it.
\<close>

theorem nms_same_label_iou_bounded:
  assumes "picked = nms_sorted_bboxes faceobjects nms_threshold False"
    and "p < q" "q < length picked"
    and "label (faceobjects ! (picked ! q)) = label (faceobjects ! (picked ! p))"
  shows "\<not> fgt (iou (faceobjects ! (picked ! q)) (faceobjects ! (picked ! p))) nms_threshold
    \<and> (iou (faceobjects ! (picked ! q)) (faceobjects ! (picked ! p)) \<noteq> NaN
         \<and> nms_threshold \<noteq> NaN \<longrightarrow>
       fle (iou (faceobjects ! (picked ! q)) (faceobjects ! (picked ! p))) nms_threshold)"
proof -
  let ?ar = "map (\<lambda>ob. rect_area (rect ob)) faceobjects"
  have P: "picked = fold (nms_step faceobjects ?ar nms_threshold False) [0..<length faceobjects] []"
    using assms(1) by (simp add: nms_sorted_bboxes_def)
  have "\<not> suppresses faceobjects ?ar nms_threshold False (picked ! q) (picked ! p)"
    using nms_invariant [of faceobjects ?ar nms_threshold False "length faceobjects"] assms(2,3)
    unfolding P [symmetric] by blast
  moreover have "picked ! q < length faceobjects" "picked ! p < length faceobjects"
    using nms_picked_sorted [of faceobjects nms_threshold False] assms(1,2,3) by simp_all
  ultimately have ng: "\<not> fgt (iou (faceobjects ! (picked ! q)) (faceobjects ! (picked ! p))) nms_threshold"
    using assms(4) by (simp add: suppresses_iou)
  then show ?thesis by (auto simp: fgt_def intro: not_flt_fle)
qed

definition box :: "real \<Rightarrow> real \<Rightarrow> real \<Rightarrow> real \<Rightarrow> int \<Rightarrow> real \<Rightarrow> Object" where
  "box x y w h l p = \<lparr>rect = \<lparr>rect_x = Fin x, rect_y = Fin y, rect_width = Fin w,
     rect_height = Fin h\<rparr>, label = l, prob = Fin p\<rparr>"

lemma nms_example_kept:
  "nms_sorted_bboxes [box 0 0 8 8 0 (7/8), box 0 0 8 2 0 (3/4)] (Fin (1/2)) False = [0, 1]"
  by (simp add: nms_eval f32_exact round32_quarter box_def Let_def)

lemma iou_example:
  "iou (box 0 0 8 2 0 (3/4)) (box 0 0 8 8 0 (7/8)) = Fin (1 / 4)"
  by (simp add: iou_def nms_eval f32_exact round32_quarter box_def Let_def)

theorem nms_same_label_iou_bounded_witness:
  "nms_sorted_bboxes [box 0 0 8 8 0 (7/8), box 0 0 8 2 0 (3/4)] (Fin (1/2)) False = [0, 1]
   \<and> iou (box 0 0 8 2 0 (3/4)) (box 0 0 8 8 0 (7/8)) = Fin (1 / 4)
   \<and> \<not> fgt (Fin (1 / 4)) (Fin (1/2))
   \<and> fle (Fin (1 / 4)) (Fin (1/2))"
proof -
  let ?xs = "[box 0 0 8 8 0 (7/8), box 0 0 8 2 0 (3/4)]"
  have l: "label (?xs ! ([0, 1] ! 1)) = label (?xs ! ([0, 1] ! 0))" by (simp add: box_def)
  from nms_same_label_iou_bounded [of "[0, 1]" ?xs "Fin (1/2)" 0 1, OF nms_example_kept [symmetric] _ _ l]
  show ?thesis using nms_example_kept iou_example by simp
qed

text \<open>Two boxes of height zero, as the Decoder emits them for rows of height zero. Both
  are kept, they share a label, and their IoU is a NaN in either order.\<close>

definition flat_a :: Object where
  "flat_a = box 0 0 8 0 0 (7/8)"

definition flat_b :: Object where
  "flat_b = box 0 4 8 0 0 (3/4)"

theorem nms_same_label_iou_counterexample:
  "decode_row [Fin 4, Fin 0, Fin 8, Fin 0, Fin (7/8)] (Fin (1/4)) 1 480 480 = Some flat_a
   \<and> decode_row [Fin 4, Fin 4, Fin 8, Fin 0, Fin (3/4)] (Fin (1/4)) 1 480 480 = Some flat_b
   \<and> nms_sorted_bboxes [flat_a, flat_b] (Fin (1/2)) False = [0, 1]
   \<and> label flat_b = label flat_a
   \<and> iou flat_b flat_a = NaN \<and> \<not> fle (iou flat_b flat_a) (Fin (1/2))
   \<and> iou flat_a flat_b = NaN \<and> \<not> fle (iou flat_a flat_b) (Fin (1/2))"
proof -
  have d: "decode_row [Fin 4, Fin 0, Fin 8, Fin 0, Fin (7/8)] (Fin (1/4)) 1 480 480 = Some flat_a"
    "decode_row [Fin 4, Fin 4, Fin 8, Fin 0, Fin (3/4)] (Fin (1/4)) 1 480 480 = Some flat_b"
    by (simp_all add: flat_a_def flat_b_def box_def decoder_eval f32_exact Let_def)
  have n: "nms_sorted_bboxes [flat_a, flat_b] (Fin (1/2)) False = [0, 1]"
    by (simp add: flat_a_def flat_b_def box_def nms_eval f32_exact Let_def)
  have i: "iou flat_b flat_a = NaN" "iou flat_a flat_b = NaN"
    by (simp_all add: flat_a_def flat_b_def box_def iou_def nms_eval f32_exact Let_def)
  have l: "label flat_b = label flat_a" by (simp add: flat_a_def flat_b_def box_def)
  show ?thesis using d n i l by (simp add: fle_def)
qed

section \<open>The NMS Filter returns a subsequence\<close>

text \<open>
  C3. For every input list the picked indices are strictly increasing and index the
  input, so the NMS Filter's output (the input's elements at the picked indices) is a
  subsequence of the input, in the input's order, and it is not longer than the input.
\<close>

theorem nms_output_subsequence:
  "sorted_wrt (<) (nms_sorted_bboxes faceobjects nms_threshold agnostic)
   \<and> set (nms_sorted_bboxes faceobjects nms_threshold agnostic) \<subseteq> {..<length faceobjects}
   \<and> subseq (map ((!) faceobjects) (nms_sorted_bboxes faceobjects nms_threshold agnostic))
        faceobjects
   \<and> length (nms_sorted_bboxes faceobjects nms_threshold agnostic) \<le> length faceobjects"
proof -
  let ?P = "nms_sorted_bboxes faceobjects nms_threshold agnostic"
  have s: "sorted_wrt (<) ?P" and b: "\<forall>k\<in>set ?P. k < length faceobjects"
    using nms_picked_sorted by blast+
  have "\<forall>k\<in>set ?P. 0 \<le> k \<and> k < length faceobjects" using b by simp
  from subseq_map_nth [OF s this] have sub: "subseq (map ((!) faceobjects) ?P) faceobjects"
    by simp
  have "length (map ((!) faceobjects) ?P) \<le> length faceobjects"
    using sub by (rule list_emb_length)
  then show ?thesis using s b sub by auto
qed

lemma nms_example_suppressed:
  "nms_sorted_bboxes [box 0 0 8 8 0 (7/8), box 0 0 8 6 0 (3/4), box 0 0 8 6 1 (1/2)]
     (Fin (1/2)) False = [0, 2]"
  by (simp add: nms_eval f32_exact round32_three_quarters box_def Let_def)

theorem nms_output_subsequence_witness:
  "nms_sorted_bboxes [box 0 0 8 8 0 (7/8), box 0 0 8 6 0 (3/4), box 0 0 8 6 1 (1/2)]
     (Fin (1/2)) False = [0, 2]
   \<and> subseq [box 0 0 8 8 0 (7/8), box 0 0 8 6 1 (1/2)]
        [box 0 0 8 8 0 (7/8), box 0 0 8 6 0 (3/4), box 0 0 8 6 1 (1/2)]"
  using nms_output_subsequence [of "[box 0 0 8 8 0 (7/8), box 0 0 8 6 0 (3/4),
      box 0 0 8 6 1 (1/2)]" "Fin (1/2)" False]
  by (simp add: nms_example_suppressed)

section \<open>The Decoder thresholds the maximum score\<close>

lemma max_element_from_spec:
  assumes "NaN \<notin> set pre" "NaN \<notin> set cs" "largest < length pre" "best = pre ! largest"
    and "\<forall>s\<in>set pre. fle s best" "\<forall>j<largest. flt (pre ! j) best"
  shows "is_first_max (pre @ cs) (max_element_from cs (length pre) best largest)"
  using assms
proof (induction cs arbitrary: pre best largest)
  case Nil
  then show ?case by (simp add: is_first_max_def)
next
  case (Cons c cs)
  have cn: "c \<noteq> NaN" using Cons.prems(2) by auto
  have bn: "best \<noteq> NaN" using Cons.prems(1,3,4) by (metis nth_mem)
  let ?pre = "pre @ [c]"
  have n1: "NaN \<notin> set ?pre" using Cons.prems(1) cn by auto
  have n2: "NaN \<notin> set cs" using Cons.prems(2) by auto
  show ?case
  proof (cases "flt best c")
    case True
    have a: "length pre < length ?pre" by simp
    have b: "c = ?pre ! length pre" by simp
    have c: "\<forall>s\<in>set ?pre. fle s c"
      using Cons.prems(5) True cn by (auto simp: fle_refl intro: flt_imp_fle fle_flt_trans)
    have d: "\<forall>j<length pre. flt (?pre ! j) c"
      using Cons.prems(5) True by (auto simp: nth_append intro: fle_flt_trans)
    from Cons.IH [OF n1 n2 a b c d] show ?thesis using True by simp
  next
    case False
    have a: "largest < length ?pre" using Cons.prems(3) by simp
    have b: "best = ?pre ! largest" using Cons.prems(3,4) by (simp add: nth_append)
    have c: "\<forall>s\<in>set ?pre. fle s best"
      using Cons.prems(5) False cn bn by (auto intro: not_flt_fle)
    have d: "\<forall>j<largest. flt (?pre ! j) best"
      using Cons.prems(3,6) by (simp add: nth_append)
    from Cons.IH [OF n1 n2 a b c d] show ?thesis using False by simp
  qed
qed

lemma max_element_spec:
  assumes "cls \<noteq> []" "NaN \<notin> set cls"
  shows "is_first_max cls (max_element cls)"
proof -
  obtain c cs where cls: "cls = c # cs" using assms(1) by (cases cls) auto
  have "is_first_max ([c] @ cs) (max_element_from cs (length [c]) c 0)"
    using assms(2) cls by (intro max_element_from_spec) (auto simp: fle_refl)
  then show ?thesis by (simp add: cls max_element_def)
qed

lemma decode_row_Some:
  assumes "decode_row row conf_thres num_labels img_w img_h = Some ob"
  shows "prob ob = class_scores row num_labels ! max_element (class_scores row num_labels)
    \<and> label ob = int (max_element (class_scores row num_labels))
    \<and> fgt (prob ob) conf_thres
    \<and> (case box_corners row img_w img_h of (x0, y0, x1, y1) \<Rightarrow>
         rect ob = \<lparr>rect_x = x0, rect_y = y0, rect_width = fsub x1 x0, rect_height = fsub y1 y0\<rparr>)"
  using assms by (auto simp: decode_row_def Let_def split: if_splits prod.splits)

lemma decode_row_None:
  "decode_row row conf_thres num_labels img_w img_h = None
     \<longleftrightarrow> \<not> fgt (class_scores row num_labels ! max_element (class_scores row num_labels)) conf_thres"
  by (auto simp: decode_row_def Let_def split: prod.splits)

lemma parse_Some:
  assumes "parse_yolov11_detections inputs conf_thres num_channels num_anchors num_labels img_w img_h
    = Some objects"
  shows "(0 < num_anchors \<longrightarrow> 1 \<le> num_labels \<and> 4 + num_labels \<le> num_channels
       \<and> num_channels * num_anchors \<le> int (length inputs))
    \<and> objects = List.map_filter
        (decode_anchor inputs conf_thres num_channels num_anchors num_labels img_w img_h)
        [0..<nat num_anchors]"
  using assms by (auto simp: parse_yolov11_detections_def split: if_splits)

lemma anchor_scores_length:
  assumes "1 \<le> num_labels" "4 + num_labels \<le> num_channels"
  shows "length (anchor_scores inputs num_channels num_anchors num_labels i) = nat num_labels"
  using assms by (simp add: anchor_scores_def class_scores_def output_row_def)

text \<open>
  C4. For every raw output tensor that holds \<open>num_channels * num_anchors\<close> values, with
  four box rows and at least one class row, and for every threshold, the Decoder returns
  the candidates of the anchors, in the anchors' order; every emitted candidate has a
  probability strictly above the threshold; and for an anchor whose class scores hold no
  NaN (so that they have a maximum), a candidate is emitted if and only if the maximum
  score is strictly above the threshold, its probability is that maximum and its label is
  the (first) index at which the maximum occurs.
\<close>

theorem decoder_emits_iff_max_exceeds:
  assumes "0 \<le> num_anchors" "1 \<le> num_labels" "4 + num_labels \<le> num_channels"
    and "num_channels * num_anchors \<le> int (length inputs)"
  shows "\<exists>objects.
      parse_yolov11_detections inputs conf_thres num_channels num_anchors num_labels img_w img_h
        = Some objects
    \<and> objects = List.map_filter
        (decode_anchor inputs conf_thres num_channels num_anchors num_labels img_w img_h)
        [0..<nat num_anchors]
    \<and> (\<forall>ob\<in>set objects. fgt (prob ob) conf_thres)
    \<and> (\<forall>i<nat num_anchors.
         NaN \<notin> set (anchor_scores inputs num_channels num_anchors num_labels i) \<longrightarrow>
         (\<exists>m. is_first_max (anchor_scores inputs num_channels num_anchors num_labels i) m
            \<and> (decode_anchor inputs conf_thres num_channels num_anchors num_labels img_w img_h i \<noteq> None
                 \<longleftrightarrow> fgt (anchor_scores inputs num_channels num_anchors num_labels i ! m) conf_thres)
            \<and> (\<forall>ob. decode_anchor inputs conf_thres num_channels num_anchors num_labels img_w img_h i
                      = Some ob \<longrightarrow>
                   prob ob = anchor_scores inputs num_channels num_anchors num_labels i ! m
                   \<and> label ob = int m)))"
proof -
  let ?dec = "decode_anchor inputs conf_thres num_channels num_anchors num_labels img_w img_h"
  let ?sc = "anchor_scores inputs num_channels num_anchors num_labels"
  define objects where "objects = List.map_filter ?dec [0..<nat num_anchors]"
  note obj = objects_def
  note shape = assms(2,3)
  have ret: "parse_yolov11_detections inputs conf_thres num_channels num_anchors num_labels
      img_w img_h = Some objects"
    using assms by (simp add: parse_yolov11_detections_def objects_def)
  have thr: "\<forall>ob\<in>set objects. fgt (prob ob) conf_thres"
  proof
    fix ob assume "ob \<in> set objects"
    then obtain i where "?dec i = Some ob" unfolding obj by (auto simp: List.map_filter_def)
    then show "fgt (prob ob) conf_thres"
      using decode_row_Some unfolding decode_anchor_def by blast
  qed
  have per: "\<exists>m. is_first_max (?sc i) m \<and> (?dec i \<noteq> None \<longleftrightarrow> fgt (?sc i ! m) conf_thres)
      \<and> (\<forall>ob. ?dec i = Some ob \<longrightarrow> prob ob = ?sc i ! m \<and> label ob = int m)"
    if nn: "NaN \<notin> set (?sc i)" for i
  proof -
    have "?sc i \<noteq> []" using anchor_scores_length [OF shape, of inputs num_anchors i] shape by auto
    then have "is_first_max (?sc i) (max_element (?sc i))" using nn by (rule max_element_spec)
    moreover have "?dec i \<noteq> None \<longleftrightarrow> fgt (?sc i ! max_element (?sc i)) conf_thres"
      by (simp add: decode_anchor_def anchor_scores_def decode_row_None)
    moreover have "\<forall>ob. ?dec i = Some ob \<longrightarrow>
        prob ob = ?sc i ! max_element (?sc i) \<and> label ob = int (max_element (?sc i))"
      using decode_row_Some unfolding decode_anchor_def anchor_scores_def by blast
    ultimately show ?thesis by blast
  qed
  show ?thesis using ret obj thr per by blast
qed

lemma parse_returns:
  assumes "w \<le> 0 \<or> 5 \<le> h \<and> h * w \<le> int (length data)"
  shows "\<exists>proposals. parse_yolov11_detections data conf_thres h w (h - 4) pw ph = Some proposals"
  using assms by (auto simp: parse_yolov11_detections_def)

lemma parse_no_anchor:
  "num_anchors \<le> 0 \<Longrightarrow>
     parse_yolov11_detections inputs conf_thres num_channels num_anchors num_labels img_w img_h
       = Some []"
  by (simp add: parse_yolov11_detections_def List.map_filter_def)

definition single_peak :: "f32 list" where
  "single_peak = [Fin 100, Fin 300, Fin 100, Fin 100, Fin 20, Fin 40, Fin 40, Fin 60,
     Fin (7/8), Fin (1/8), Fin (1/8), Fin (3/16)]"

lemma single_peak_parsed:
  "parse_yolov11_detections single_peak (Fin (1/4)) 6 2 2 480 480
     = Some [\<lparr>rect = \<lparr>rect_x = Fin 90, rect_y = Fin 80, rect_width = Fin 20, rect_height = Fin 40\<rparr>,
              label = 0, prob = Fin (7/8)\<rparr>]"
  by (simp add: single_peak_def decoder_eval f32_exact Let_def)

theorem decoder_emits_iff_max_exceeds_witness:
  "parse_yolov11_detections single_peak (Fin (1/4)) 6 2 2 480 480
     = Some [\<lparr>rect = \<lparr>rect_x = Fin 90, rect_y = Fin 80, rect_width = Fin 20, rect_height = Fin 40\<rparr>,
              label = 0, prob = Fin (7/8)\<rparr>]
   \<and> anchor_scores single_peak 6 2 2 0 = [Fin (7/8), Fin (1/8)]
   \<and> anchor_scores single_peak 6 2 2 1 = [Fin (1/8), Fin (3/16)]
   \<and> fgt (Fin (7/8)) (Fin (1/4)) \<and> \<not> fgt (Fin (3/16)) (Fin (1/4))
   \<and> is_first_max [Fin (7/8), Fin (1/8)] 0 \<and> is_first_max [Fin (1/8), Fin (3/16)] 1
   \<and> decode_anchor single_peak (Fin (1/4)) 6 2 2 480 480 1 = None"
proof -
  let ?ob = "\<lparr>rect = \<lparr>rect_x = Fin 90, rect_y = Fin 80, rect_width = Fin 20, rect_height = Fin 40\<rparr>,
              label = 0, prob = Fin (7/8)\<rparr>"
  have s0: "anchor_scores single_peak 6 2 2 0 = [Fin (7/8), Fin (1/8)]"
    and s1: "anchor_scores single_peak 6 2 2 1 = [Fin (1/8), Fin (3/16)]"
    by (simp_all add: single_peak_def decoder_eval)
  have d1: "decode_anchor single_peak (Fin (1/4)) 6 2 2 480 480 1 = None"
    by (simp add: single_peak_def decoder_eval f32_exact Let_def)
  have shape: "(0::int) \<le> 2" "(1::int) \<le> 2" "(4::int) + 2 \<le> 6"
    "(6::int) * 2 \<le> int (length single_peak)"
    by (simp_all add: single_peak_def)
  from decoder_emits_iff_max_exceeds [OF shape, of "Fin (1/4)" 480 480] obtain objects where
    ret: "parse_yolov11_detections single_peak (Fin (1/4)) 6 2 2 480 480 = Some objects"
    and thr': "\<forall>ob\<in>set objects. fgt (prob ob) (Fin (1/4))"
    and per: "\<forall>i<nat 2. NaN \<notin> set (anchor_scores single_peak 6 2 2 i) \<longrightarrow>
         (\<exists>m. is_first_max (anchor_scores single_peak 6 2 2 i) m
            \<and> (decode_anchor single_peak (Fin (1/4)) 6 2 2 480 480 i \<noteq> None
                 \<longleftrightarrow> fgt (anchor_scores single_peak 6 2 2 i ! m) (Fin (1/4)))
            \<and> (\<forall>ob. decode_anchor single_peak (Fin (1/4)) 6 2 2 480 480 i = Some ob \<longrightarrow>
                   prob ob = anchor_scores single_peak 6 2 2 i ! m \<and> label ob = int m))"
    by blast
  have "objects = [?ob]" using ret single_peak_parsed by simp
  then have thr: "\<forall>ob\<in>set [?ob]. fgt (prob ob) (Fin (1/4))" using thr' by simp
  have a: "fgt (Fin (7/8)) (Fin (1/4))" using thr by simp
  from per [rule_format, of 1] obtain m where
    m: "is_first_max [Fin (1/8), Fin (3/16)] m"
      "\<not> fgt ([Fin (1/8), Fin (3/16)] ! m) (Fin (1/4))"
    using s1 d1 by auto
  have "m = 1" using m(1) by (cases m) (auto simp: is_first_max_def fle_def flt_def)
  then have b: "\<not> fgt (Fin (3/16)) (Fin (1/4))" "is_first_max [Fin (1/8), Fin (3/16)] 1"
    using m by simp_all
  have c: "is_first_max [Fin (7/8), Fin (1/8)] 0"
    by (simp add: is_first_max_def fle_def)
  show ?thesis using single_peak_parsed s0 s1 a b c d1 by simp
qed

section \<open>The Decoder clamps the corners\<close>

lemma box_corners_bounds:
  assumes "0 \<le> img_w" "0 \<le> img_h"
    and "box_corners bbox img_w img_h = (x0, y0, x1, y1)"
  shows "fle (Fin 0) x0 \<and> fle x0 (float_of_int img_w) \<and> fle (Fin 0) x1 \<and> fle x1 (float_of_int img_w)
    \<and> fle (Fin 0) y0 \<and> fle y0 (float_of_int img_h) \<and> fle (Fin 0) y1 \<and> fle y1 (float_of_int img_h)"
proof -
  have w: "fle (Fin 0) (float_of_int img_w)" and h: "fle (Fin 0) (float_of_int img_h)"
    using assms(1,2) by (simp_all add: float_of_int_nonneg)
  show ?thesis using assms(3) clampf_bounds [OF w] clampf_bounds [OF h]
    by (auto simp: box_corners_def Let_def)
qed

text \<open>
  C5. Every corner the Decoder computes for an emitted anchor lies in
  \<open>[0, padded_width]\<close> (x) and \<open>[0, padded_height]\<close> (y), and the emitted box is
  \<open>(x0, y0, x1 - x0, y1 - y0)\<close>. A corner \<open>cx + w/2\<close> computed at or beyond the padded
  width, in particular one equal to \<open>padded_width + 50\<close>, is emitted as exactly the
  padded width.
\<close>

theorem decoder_corners_clamped:
  assumes "0 \<le> img_w" "0 \<le> img_h"
    and "decode_row row conf_thres num_labels img_w img_h = Some ob"
  shows "\<exists>x0 y0 x1 y1. box_corners row img_w img_h = (x0, y0, x1, y1)
    \<and> rect ob = \<lparr>rect_x = x0, rect_y = y0, rect_width = fsub x1 x0, rect_height = fsub y1 y0\<rparr>
    \<and> fle (Fin 0) x0 \<and> fle x0 (float_of_int img_w)
    \<and> fle (Fin 0) x1 \<and> fle x1 (float_of_int img_w)
    \<and> fle (Fin 0) y0 \<and> fle y0 (float_of_int img_h)
    \<and> fle (Fin 0) y1 \<and> fle y1 (float_of_int img_h)
    \<and> (fle (float_of_int img_w) (fadd (row ! 0) (fmul (Fin (1 / 2)) (row ! 2)))
         \<longrightarrow> x1 = float_of_int img_w)
    \<and> (fadd (row ! 0) (fmul (Fin (1 / 2)) (row ! 2)) = fadd (float_of_int img_w) (Fin 50)
         \<longrightarrow> x1 = float_of_int img_w)"
proof -
  obtain x0 y0 x1 y1 where c: "box_corners row img_w img_h = (x0, y0, x1, y1)"
    by (metis prod_cases4)
  have r: "rect ob = \<lparr>rect_x = x0, rect_y = y0, rect_width = fsub x1 x0, rect_height = fsub y1 y0\<rparr>"
    using decode_row_Some [OF assms(3)] c by simp
  have x1: "x1 = clampf (fadd (row ! 0) (fmul (Fin (1 / 2)) (row ! 2))) (Fin 0) (float_of_int img_w)"
    using c by (simp add: box_corners_def Let_def)
  have top: "x1 = float_of_int img_w"
    if "fle (float_of_int img_w) (fadd (row ! 0) (fmul (Fin (1 / 2)) (row ! 2)))"
    unfolding x1 using assms(1) that by (rule clampf_top)
  have w: "fle (Fin 0) (float_of_int img_w)" using assms(1) by (rule float_of_int_nonneg)
  have "fle (float_of_int img_w) (fadd (float_of_int img_w) (Fin 50))"
    using w by (intro fadd_ge_self) (auto simp: float_of_int_def fle_def)
  then have top50: "x1 = float_of_int img_w"
    if "fadd (row ! 0) (fmul (Fin (1 / 2)) (row ! 2)) = fadd (float_of_int img_w) (Fin 50)"
    using top that by simp
  show ?thesis using c r box_corners_bounds [OF assms(1,2) c] top top50 by blast
qed

definition beyond_right_edge :: "f32 list" where
  "beyond_right_edge = [Fin 500, Fin 100, Fin 60, Fin 40, Fin (7/8)]"

lemma beyond_right_edge_decoded:
  "decode_row beyond_right_edge (Fin (1/4)) 1 480 480
     = Some \<lparr>rect = \<lparr>rect_x = Fin 470, rect_y = Fin 80, rect_width = Fin 10, rect_height = Fin 40\<rparr>,
             label = 0, prob = Fin (7/8)\<rparr>"
  by (simp add: beyond_right_edge_def decoder_eval f32_exact Let_def)

lemma beyond_right_edge_corners:
  "box_corners beyond_right_edge 480 480 = (Fin 470, Fin 80, Fin 480, Fin 120)"
  by (simp add: beyond_right_edge_def decoder_eval f32_exact Let_def)

theorem decoder_corners_clamped_witness:
  "decode_row beyond_right_edge (Fin (1/4)) 1 480 480
     = Some \<lparr>rect = \<lparr>rect_x = Fin 470, rect_y = Fin 80, rect_width = Fin 10, rect_height = Fin 40\<rparr>,
             label = 0, prob = Fin (7/8)\<rparr>
   \<and> box_corners beyond_right_edge 480 480 = (Fin 470, Fin 80, Fin 480, Fin 120)
   \<and> fadd (beyond_right_edge ! 0) (fmul (Fin (1 / 2)) (beyond_right_edge ! 2)) = Fin 530
   \<and> fadd (float_of_int 480) (Fin 50) = Fin 530
   \<and> float_of_int 480 = Fin 480
   \<and> fle (Fin 0) (Fin 470) \<and> fle (Fin 470) (Fin 480) \<and> fle (Fin 120) (Fin 480)"
proof -
  have e: "fadd (beyond_right_edge ! 0) (fmul (Fin (1 / 2)) (beyond_right_edge ! 2)) = Fin 530"
    "fadd (float_of_int 480) (Fin 50) = Fin 530" "float_of_int 480 = Fin 480"
    by (simp_all add: beyond_right_edge_def f32_exact)
  from decoder_corners_clamped [OF _ _ beyond_right_edge_decoded]
  obtain x0 y0 x1 y1 where c: "box_corners beyond_right_edge 480 480 = (x0, y0, x1, y1)"
    and b: "fle (Fin 0) x0" "fle x0 (float_of_int 480)" "fle y1 (float_of_int 480)"
    and t: "fadd (beyond_right_edge ! 0) (fmul (Fin (1 / 2)) (beyond_right_edge ! 2))
              = fadd (float_of_int 480) (Fin 50) \<longrightarrow> x1 = float_of_int 480"
    by auto
  have "x0 = Fin 470" "y1 = Fin 120" "x1 = Fin 480" using c beyond_right_edge_corners by simp_all
  then show ?thesis using b e beyond_right_edge_decoded beyond_right_edge_corners by simp
qed

section \<open>Widths and heights\<close>

lemma mapped_span_nonneg:
  assumes "fle (Fin 0) mx" "is_finite mx" "flt (Fin 0) scale" "is_finite scale" "is_finite pad"
    and "is_f32 p" "fle (Fin 0) w"
  shows "fle (Fin 0) (fsub (clampf (fdiv (fsub (fadd p w) pad) scale) (Fin 0) mx)
                        (clampf (fdiv (fsub p pad) scale) (Fin 0) mx))"
proof -
  let ?q0 = "fdiv (fsub p pad) scale"
  let ?q1 = "fdiv (fsub (fadd p w) pad) scale"
  have "?q1 = NaN \<or> fle ?q0 ?q1"
  proof (cases "fadd p w = NaN")
    case True
    then show ?thesis by (simp add: fsub_def fadd_def fdiv_def)
  next
    case False
    then have "fle p (fadd p w)" using fadd_rel [OF assms(6,7)] by simp
    then have "fle (fsub p pad) (fsub (fadd p w) pad)" using assms(5) by (rule fsub_mono_left)
    then show ?thesis using assms(3,4) fdiv_mono_left by blast
  qed
  then have "?q1 = NaN \<or> (?q0 = NaN \<and> fle mx ?q1) \<or> fle ?q0 ?q1" by blast
  with assms(1) have le: "fle (clampf ?q0 (Fin 0) mx) (clampf ?q1 (Fin 0) mx)"
    by (rule clampf_le)
  have r: "rank (clampf d (Fin 0) mx) = 0" for d
    using clampf_bounds [OF assms(1), of d] assms(2) rank_between [of "Fin 0" _ mx]
    by (simp add: is_finite_rank)
  show ?thesis by (rule fsub_nonneg [OF le r r])
qed

lemma c_div_2_abs: "\<bar>c_div a 2\<bar> \<le> \<bar>a\<bar>"
  by (auto simp: c_div_def sgn_if abs_if)

lemma image_bound:
  assumes "1 \<le> n"
  shows "fle (Fin 0) (fsub (float_of_int n) (Fin 1))"
    and "n \<le> 2 ^ 31 \<Longrightarrow> is_finite (fsub (float_of_int n) (Fin 1))"
proof -
  have one: "fle (Fin 1) (float_of_int n)"
    using round32_mono [of 1 "of_int n" False False] assms by (simp add: float_of_int_def round32_1)
  have nn: "float_of_int n \<noteq> NaN" by (simp add: float_of_int_def)
  show "fle (Fin 0) (fsub (float_of_int n) (Fin 1))"
  proof (cases "float_of_int n = PInf")
    case True
    then show ?thesis by (simp add: fsub_def fadd_def fneg_def is_inf_def fle_def)
  next
    case False
    then have rk: "rank (float_of_int n) = 0" using one by (cases "float_of_int n") (auto simp: fle_def)
    show ?thesis using one rk by (intro fsub_nonneg) simp_all
  qed
  assume "n \<le> 2 ^ 31"
  then have f: "is_finite (float_of_int n)" using assms by (intro float_of_int_finite) simp
  then have r: "rank (float_of_int n) = 0" by (simp add: is_finite_rank)
  have v: "1 \<le> val (float_of_int n)" using one r by (auto simp: fle_def)
  have e: "fsub (float_of_int n) (Fin 1)
      = round32 (signbit (float_of_int n)) (val (float_of_int n) - 1)"
    using f by (simp add: fsub_def fadd_def fneg_def is_finite_def is_inf_def)
  have "fle (round32 (signbit (float_of_int n)) (val (float_of_int n) - 1))
      (round32 False (val (float_of_int n)))"
    by (intro round32_mono) simp
  moreover have "fle (round32 False (val (float_of_int n))) (float_of_int n)"
    using is_f32_val [OF _ r nn] by (simp add: float_of_int_def)
  ultimately have "fle (fsub (float_of_int n) (Fin 1)) (float_of_int n)"
    unfolding e using fle_trans by blast
  moreover have "fle (Fin 0) (fsub (float_of_int n) (Fin 1))" by fact
  ultimately have "rank (fsub (float_of_int n) (Fin 1)) = 0" using r rank_between by fastforce
  then show "is_finite (fsub (float_of_int n) (Fin 1))" by (simp add: is_finite_rank e)
qed

lemma decode_row_size_nonneg:
  assumes "0 \<le> img_w" "img_w < 2 ^ 31" "0 \<le> img_h" "img_h < 2 ^ 31"
    and "fle (Fin 0) (row ! 2)" "fle (Fin 0) (row ! 3)"
    and "decode_row row conf_thres num_labels img_w img_h = Some ob"
  shows "fle (Fin 0) (rect_width (rect ob)) \<and> fle (Fin 0) (rect_height (rect ob))"
proof -
  have w: "fle (Fin 0) (float_of_int img_w)" "rank (float_of_int img_w) = 0"
    using assms(1,2) by (simp_all add: float_of_int_nonneg float_of_int_rank)
  have h: "fle (Fin 0) (float_of_int img_h)" "rank (float_of_int img_h) = 0"
    using assms(3,4) by (simp_all add: float_of_int_nonneg float_of_int_rank)
  have hw: "fle (Fin 0) (fmul (Fin (1 / 2)) (row ! 2))" using assms(5) by (rule fmul_half_nonneg)
  have hh: "fle (Fin 0) (fmul (Fin (1 / 2)) (row ! 3))" using assms(6) by (rule fmul_half_nonneg)
  have "rect_width (rect ob) =
      fsub (clampf (fadd (row ! 0) (fmul (Fin (1 / 2)) (row ! 2))) (Fin 0) (float_of_int img_w))
           (clampf (fsub (row ! 0) (fmul (Fin (1 / 2)) (row ! 2))) (Fin 0) (float_of_int img_w))"
    and "rect_height (rect ob) =
      fsub (clampf (fadd (row ! 1) (fmul (Fin (1 / 2)) (row ! 3))) (Fin 0) (float_of_int img_h))
           (clampf (fsub (row ! 1) (fmul (Fin (1 / 2)) (row ! 3))) (Fin 0) (float_of_int img_h))"
    using decode_row_Some [OF assms(7)] by (simp_all add: box_corners_def Let_def)
  then show ?thesis
    using clamped_span_nonneg [OF w hw] clamped_span_nonneg [OF h hh] by simp
qed

lemma map_back_size_nonneg:
  assumes "1 \<le> img_w" "img_w < 2 ^ 31" "1 \<le> img_h" "img_h < 2 ^ 31"
    and "\<bar>wpad\<bar> < 2 ^ 31" "\<bar>hpad\<bar> < 2 ^ 31"
    and "flt (Fin 0) scale" "is_finite scale"
    and "is_f32 (rect_x (rect kept))" "is_f32 (rect_y (rect kept))"
    and "fle (Fin 0) (rect_width (rect kept))" "fle (Fin 0) (rect_height (rect kept))"
  shows "fle (Fin 0) (rect_width (rect (map_back scale wpad hpad img_w img_h kept)))
    \<and> fle (Fin 0) (rect_height (rect (map_back scale wpad hpad img_w img_h kept)))"
proof -
  have mw: "fle (Fin 0) (fsub (float_of_int img_w) (Fin 1))"
      "is_finite (fsub (float_of_int img_w) (Fin 1))"
    using image_bound [of img_w] assms(1,2) by simp_all
  have mh: "fle (Fin 0) (fsub (float_of_int img_h) (Fin 1))"
      "is_finite (fsub (float_of_int img_h) (Fin 1))"
    using image_bound [of img_h] assms(3,4) by simp_all
  have pw: "is_finite (float_of_int (c_div wpad 2))"
    using c_div_2_abs [of wpad] assms(5) by (intro float_of_int_finite) simp
  have ph: "is_finite (float_of_int (c_div hpad 2))"
    using c_div_2_abs [of hpad] assms(6) by (intro float_of_int_finite) simp
  show ?thesis
    using mapped_span_nonneg [OF mw assms(7,8) pw assms(9,11)]
      mapped_span_nonneg [OF mh assms(7,8) ph assms(10,12)]
    by (simp add: map_back_def Let_def)
qed

text \<open>
  C6. Non-negative sizes, for the rows and boxes that have them. A row whose raw \<open>w\<close> and
  \<open>h\<close> are not negative (and not NaN) gives a box of non-negative width \<open>x1 - x0\<close> and
  height \<open>y1 - y0\<close>, and the Coordinate Mapper (positive finite scale, image of at least
  one pixel) maps a box of non-negative width and height, at binary32 coordinates, to a
  box of non-negative width and height. Nothing in the code reorders the corners: a row
  with a negative raw \<open>w\<close> keeps \<open>x1 < x0\<close>, so its width is negative after the Decoder
  and after the Coordinate Mapper.
\<close>

theorem nonneg_size_preserved:
  "(0 \<le> img_w \<and> img_w < 2 ^ 31 \<and> 0 \<le> img_h \<and> img_h < 2 ^ 31
      \<and> fle (Fin 0) (row ! 2) \<and> fle (Fin 0) (row ! 3)
      \<and> decode_row row conf_thres num_labels img_w img_h = Some ob
    \<longrightarrow> fle (Fin 0) (rect_width (rect ob)) \<and> fle (Fin 0) (rect_height (rect ob)))
   \<and> (1 \<le> orig_w \<and> orig_w < 2 ^ 31 \<and> 1 \<le> orig_h \<and> orig_h < 2 ^ 31
      \<and> \<bar>wpad\<bar> < 2 ^ 31 \<and> \<bar>hpad\<bar> < 2 ^ 31 \<and> flt (Fin 0) scale \<and> is_finite scale
      \<and> is_f32 (rect_x (rect kept)) \<and> is_f32 (rect_y (rect kept))
      \<and> fle (Fin 0) (rect_width (rect kept)) \<and> fle (Fin 0) (rect_height (rect kept))
    \<longrightarrow> fle (Fin 0) (rect_width (rect (map_back scale wpad hpad orig_w orig_h kept)))
      \<and> fle (Fin 0) (rect_height (rect (map_back scale wpad hpad orig_w orig_h kept))))"
  using decode_row_size_nonneg [of img_w img_h row conf_thres num_labels ob]
    map_back_size_nonneg [of orig_w orig_h wpad hpad scale kept]
  by blast

definition negative_w :: "f32 list" where
  "negative_w = [Fin 10, Fin 10, Fin (- 4), Fin 4, Fin (7/8)]"

definition negative_box :: Object where
  "negative_box = \<lparr>rect = \<lparr>rect_x = Fin 12, rect_y = Fin 8, rect_width = Fin (- 4),
     rect_height = Fin 4\<rparr>, label = 0, prob = Fin (7/8)\<rparr>"

theorem nonneg_size_counterexample:
  "parse_yolov11_detections negative_w (Fin (1/4)) 5 1 1 480 480 = Some [negative_box]
   \<and> rect_width (rect negative_box) = Fin (- 4)
   \<and> \<not> fle (Fin 0) (Fin (- 4))
   \<and> rect_width (rect (map_back (Fin (1/4)) 0 210 1920 1083 negative_box)) = Fin (- 16)
   \<and> \<not> fle (Fin 0) (Fin (- 16))"
  by (simp add: negative_w_def negative_box_def decoder_eval mapper_eval f32_exact Let_def)

definition plain_row :: "f32 list" where
  "plain_row = [Fin 120, Fin 195, Fin 60, Fin 90, Fin (7/8)]"

definition plain_box :: Object where
  "plain_box = \<lparr>rect = \<lparr>rect_x = Fin 90, rect_y = Fin 150, rect_width = Fin 60,
     rect_height = Fin 90\<rparr>, label = 0, prob = Fin (7/8)\<rparr>"

lemma plain_row_decoded: "decode_row plain_row (Fin (1/4)) 1 480 480 = Some plain_box"
  by (simp add: plain_row_def plain_box_def decoder_eval f32_exact Let_def)

lemma plain_box_mapped:
  "map_back (Fin (3/4)) 0 120 640 480 plain_box
     = \<lparr>rect = \<lparr>rect_x = Fin 120, rect_y = Fin 120, rect_width = Fin 80,
          rect_height = Fin 120\<rparr>, label = 0, prob = Fin (7/8)\<rparr>"
  by (simp add: plain_box_def mapper_eval f32_exact Let_def)

lemma is_f32_small: "is_f32 (Fin 90)" "is_f32 (Fin 150)"
  by (simp_all add: is_f32_def f32_exact)

theorem nonneg_size_preserved_witness:
  "decode_row plain_row (Fin (1/4)) 1 480 480 = Some plain_box
   \<and> fle (Fin 0) (plain_row ! 2) \<and> fle (Fin 0) (plain_row ! 3)
   \<and> fle (Fin 0) (rect_width (rect plain_box)) \<and> fle (Fin 0) (rect_height (rect plain_box))
   \<and> flt (Fin 0) (Fin (3/4)) \<and> is_finite (Fin (3/4))
   \<and> is_f32 (rect_x (rect plain_box)) \<and> is_f32 (rect_y (rect plain_box))
   \<and> fle (Fin 0) (rect_width (rect (map_back (Fin (3/4)) 0 120 640 480 plain_box)))
   \<and> fle (Fin 0) (rect_height (rect (map_back (Fin (3/4)) 0 120 640 480 plain_box)))"
proof -
  have a: "fle (Fin 0) (plain_row ! 2)" "fle (Fin 0) (plain_row ! 3)"
    by (simp_all add: plain_row_def fle_def)
  have b: "flt (Fin 0) (Fin (3/4))" "is_finite (Fin (3/4))"
    by (simp_all add: flt_def is_finite_def is_inf_def)
  have c: "is_f32 (rect_x (rect plain_box))" "is_f32 (rect_y (rect plain_box))"
    using is_f32_small by (simp_all add: plain_box_def)
  note t = nonneg_size_preserved [of 480 480 plain_row "Fin (1/4)" 1 plain_box 640 480 0 120
      "Fin (3/4)" plain_box]
  have d: "fle (Fin 0) (rect_width (rect plain_box)) \<and> fle (Fin 0) (rect_height (rect plain_box))"
    using t a plain_row_decoded by simp
  have e: "fle (Fin 0) (rect_width (rect (map_back (Fin (3/4)) 0 120 640 480 plain_box)))
      \<and> fle (Fin 0) (rect_height (rect (map_back (Fin (3/4)) 0 120 640 480 plain_box)))"
    using t b c d by simp
  show ?thesis using plain_row_decoded a b c d e by simp
qed

section \<open>The letterbox\<close>

text \<open>The scale \<^verbatim>\<open>(float)target_size / m\<close> for a side \<open>1 \<le> m < 2 ^ 31\<close>.\<close>

lemma scale_Fin:
  assumes "1 \<le> m" "m \<le> 2 ^ 31"
  shows "fdiv (float_of_int target_size) (float_of_int m)
      = Fin (round_mag (480 / round_mag (of_int m)))"
    and "0 < round_mag (480 / round_mag (of_int m))"
    and "round_mag (480 / round_mag (of_int m)) \<le> 480"
    and "round_mag (of_int m) * round_mag (480 / round_mag (of_int m)) \<le> 480 * (1 + 1 / 2 ^ 24)"
proof -
  define v where "v = round_mag (of_int m)"
  have fm: "float_of_int m = Fin v" and v: "1 \<le> v" "v \<le> 2 ^ 31"
    using float_of_int_Fin [OF assms] by (simp_all add: v_def)
  have ft: "float_of_int target_size = Fin 480"
    by (simp add: target_size_def float_of_int_def round32_numeral)
  have "480 / 2 ^ 31 \<le> 480 / v" using v by (intro divide_left_mono) simp_all
  moreover have "480 / v \<le> 480 / 1" using v by (intro divide_left_mono) simp_all
  ultimately have q: "480 / 2 ^ 31 \<le> 480 / v" "480 / v \<le> 480" by simp_all
  have "round_mag (480 / 2 ^ 31) \<le> round_mag (480 / v)" using q by (intro round_mag_mono) simp_all
  moreover have "round_mag (480 / 2 ^ 31) = 480 / 2 ^ 31" using round_mag_exact [of 15 123] by simp
  ultimately show pos: "0 < round_mag (480 / round_mag (of_int m))" by (simp add: v_def)
  have "round_mag (480 / v) \<le> round_mag 480" using q v by (intro round_mag_mono) simp_all
  moreover have "round_mag 480 = 480" using round_mag_nat [of 480] by simp
  ultimately show le: "round_mag (480 / round_mag (of_int m)) \<le> 480" by (simp add: v_def)
  have "\<not> 2 ^ 128 \<le> round_mag (480 / v)" using le by (simp add: v_def)
  moreover have "v \<noteq> 0" "0 < 480 / v" using v by simp_all
  ultimately show "fdiv (float_of_int target_size) (float_of_int m)
      = Fin (round_mag (480 / round_mag (of_int m)))"
    using pos fm ft
    by (simp add: fdiv_def is_inf_def is_zero_def round32_def Let_def v_def)
  have "1 / 2 ^ 126 \<le> 480 / v"
  proof -
    have "(1::real) / 2 ^ 126 \<le> 480 / 2 ^ 31" by simp
    then show ?thesis using q(1) by linarith
  qed
  then have "round_mag (480 / v) \<le> 480 / v * (1 + 1 / 2 ^ 24)" by (rule round_mag_upper)
  then have "v * round_mag (480 / v) \<le> v * (480 / v * (1 + 1 / 2 ^ 24))"
    using v by (intro mult_left_mono) simp_all
  also have "\<dots> = 480 * (1 + 1 / 2 ^ 24)" using v by simp
  finally show "round_mag (of_int m) * round_mag (480 / round_mag (of_int m))
      \<le> 480 * (1 + 1 / 2 ^ 24)" by (simp add: v_def)
qed

lemma round_mag_480_up: "round_mag (480 * (1 + 1 / 2 ^ 24)) = 15728641 / 32768"
  by (simp add: round_mag_def ulp_scaled_def ulp_eval rne_def)

text \<open>A side \<open>n\<close> of the image scaled by the scale of the longer side \<open>m\<close>: the product
  converts to an \<^verbatim>\<open>int\<close> between 0 and \<open>target_size\<close>.\<close>

lemma scaled_side:
  assumes "1 \<le> n" "n \<le> m" "m \<le> 2 ^ 31"
  shows "\<exists>t. int_of_float (fmul (float_of_int n) (fdiv (float_of_int target_size) (float_of_int m)))
        = Some t \<and> 0 \<le> t \<and> t \<le> target_size
      \<and> t = \<lfloor>val (fmul (float_of_int n) (fdiv (float_of_int target_size) (float_of_int m)))\<rfloor>
      \<and> t = \<lfloor>round_mag (round_mag (of_int n) * round_mag (480 / round_mag (of_int m)))\<rfloor>"
proof -
  define v where "v = round_mag (of_int n)"
  define sc where "sc = round_mag (480 / round_mag (of_int m))"
  have m1: "1 \<le> m" using assms by simp
  have n31: "n \<le> 2 ^ 31" using assms by simp
  have fn: "float_of_int n = Fin v" and v: "1 \<le> v"
    using float_of_int_Fin [OF assms(1) n31] by (simp_all add: v_def)
  have s: "fdiv (float_of_int target_size) (float_of_int m) = Fin sc" "0 < sc"
    "round_mag (of_int m) * sc \<le> 480 * (1 + 1 / 2 ^ 24)"
    using scale_Fin [OF m1 assms(3)] by (simp_all add: sc_def)
  have "real_of_int n \<le> real_of_int m" using assms(2) by simp
  then have "v \<le> round_mag (of_int m)" unfolding v_def using assms(1) by (intro round_mag_mono) simp_all
  then have "v * sc \<le> round_mag (of_int m) * sc" using s(2) by (intro mult_right_mono) simp_all
  then have b: "v * sc \<le> 480 * (1 + 1 / 2 ^ 24)" using s(3) by linarith
  have p0: "0 \<le> v * sc" using v s(2) by simp
  define p where "p = round_mag (v * sc)"
  have "p \<le> round_mag (480 * (1 + 1 / 2 ^ 24))" unfolding p_def using p0 b by (intro round_mag_mono)
  then have pu: "p \<le> 15728641 / 32768" by (simp only: round_mag_480_up)
  have pl: "0 \<le> p" unfolding p_def using p0 by (rule round_mag_nonneg)
  have a: "\<bar>v * sc\<bar> = v * sc" using p0 by simp
  have val: "val (fmul (Fin v) (Fin sc)) = p" and f: "fmul (Fin v) (Fin sc) \<noteq> NaN"
    "\<not> is_inf (fmul (Fin v) (Fin sc))"
    using pu pl p0 by (auto simp: fmul_def is_inf_def round32_def Let_def a p_def [symmetric]
        zero_of_def inf_of_def)
  have fl: "0 \<le> \<lfloor>p\<rfloor>" "\<lfloor>p\<rfloor> \<le> 480" using pl pu by (simp_all add: floor_le_iff)
  have "int_of_float (fmul (Fin v) (Fin sc)) = Some \<lfloor>p\<rfloor>"
    using f val pl fl by (simp add: int_of_float_def Let_def)
  then show ?thesis unfolding fn s(1) using fl val
    by (simp add: target_size_def p_def v_def sc_def)
qed

lemma scaled_side_mono:
  assumes "1 \<le> a" "a \<le> b" "1 \<le> m"
  shows "\<lfloor>round_mag (round_mag (of_int a) * round_mag (480 / round_mag (of_int m)))\<rfloor>
    \<le> \<lfloor>round_mag (round_mag (of_int b) * round_mag (480 / round_mag (of_int m)))\<rfloor>"
proof -
  define sc where "sc = round_mag (480 / round_mag (of_int m))"
  have "0 \<le> round_mag (of_int m)" using assms(3) by (intro round_mag_nonneg) simp
  then have sc: "0 \<le> sc" unfolding sc_def by (intro round_mag_nonneg) simp
  have ab: "round_mag (of_int a) \<le> round_mag (of_int b)"
    using assms(1,2) by (intro round_mag_mono) simp_all
  have a0: "0 \<le> round_mag (of_int a)" using assms(1) by (intro round_mag_nonneg) simp
  have "round_mag (of_int a) * sc \<le> round_mag (of_int b) * sc"
    using ab sc by (rule mult_right_mono)
  moreover have "0 \<le> round_mag (of_int a) * sc" using a0 sc by simp
  ultimately have "round_mag (round_mag (of_int a) * sc) \<le> round_mag (round_mag (of_int b) * sc)"
    by (intro round_mag_mono)
  then show ?thesis unfolding sc_def by (rule floor_mono)
qed

lemma scale_is_min:
  assumes "1 \<le> img_w" "img_w \<le> 2 ^ 31" "1 \<le> img_h" "img_h \<le> 2 ^ 31"
  shows "(if img_w > img_h then fdiv (float_of_int target_size) (float_of_int img_w)
          else fdiv (float_of_int target_size) (float_of_int img_h))
    = std_min (fdiv (float_of_int target_size) (float_of_int img_w))
        (fdiv (float_of_int target_size) (float_of_int img_h))"
proof -
  define vw where "vw = round_mag (of_int img_w)"
  define vh where "vh = round_mag (of_int img_h)"
  have a: "fdiv (float_of_int target_size) (float_of_int img_w) = Fin (round_mag (480 / vw))"
    and b: "fdiv (float_of_int target_size) (float_of_int img_h) = Fin (round_mag (480 / vh))"
    using scale_Fin(1) [OF assms(1,2)] scale_Fin(1) [OF assms(3,4)] by (simp_all add: vw_def vh_def)
  have vw: "1 \<le> vw" and vh: "1 \<le> vh"
    using float_of_int_Fin(2) [OF assms(1,2)] float_of_int_Fin(2) [OF assms(3,4)]
    by (simp_all add: vw_def vh_def)
  show ?thesis
  proof (cases "img_w > img_h")
    case True
    then have "vh \<le> vw" unfolding vw_def vh_def using assms(3) by (intro round_mag_mono) simp_all
    then have "480 / vw \<le> 480 / vh" using vh by (intro divide_left_mono) simp_all
    then have "round_mag (480 / vw) \<le> round_mag (480 / vh)" using vw by (intro round_mag_mono) simp_all
    then show ?thesis using True by (simp add: a b std_min_def flt_def)
  next
    case False
    then have "vw \<le> vh" unfolding vw_def vh_def using assms(1) by (intro round_mag_mono) simp_all
    then have "480 / vh \<le> 480 / vw" using vw by (intro divide_left_mono) simp_all
    then have "round_mag (480 / vh) \<le> round_mag (480 / vw)" using vh by (intro round_mag_mono) simp_all
    then show ?thesis using False by (auto simp: a b std_min_def flt_def)
  qed
qed

lemma pad_base: "c_div (target_size + MAX_STRIDE - 1) MAX_STRIDE * MAX_STRIDE = target_size"
  by (simp add: target_size_def MAX_STRIDE_def c_div_def)

text \<open>
  C7. The resized sides are not rounded. For every image of at least one pixel the
  Preprocessor computes \<open>scale = min(T/W, T/H)\<close> in \<^verbatim>\<open>float\<close>, truncates \<open>W * scale\<close> and
  \<open>H * scale\<close> (each a \<^verbatim>\<open>float\<close> product) toward zero to \<open>w\<close> and \<open>h\<close>, both from 0 to \<open>T\<close>,
  and then forces one side to \<open>T\<close>: the height when \<open>W \<le> H\<close>, the width when \<open>W > H\<close> and
  the truncated sides differ. The paddings are \<open>T\<close> minus the final sides.
\<close>

theorem letterbox_truncates:
  assumes "1 \<le> img_w" "img_w < 2 ^ 31" "1 \<le> img_h" "img_h < 2 ^ 31"
  shows "\<exists>lb w h. letterbox img_w img_h = Some lb
    \<and> lb_scale lb = std_min (fdiv (float_of_int target_size) (float_of_int img_w))
                       (fdiv (float_of_int target_size) (float_of_int img_h))
    \<and> int_of_float (fmul (float_of_int img_w) (lb_scale lb)) = Some w
    \<and> w = \<lfloor>val (fmul (float_of_int img_w) (lb_scale lb))\<rfloor>
    \<and> int_of_float (fmul (float_of_int img_h) (lb_scale lb)) = Some h
    \<and> h = \<lfloor>val (fmul (float_of_int img_h) (lb_scale lb))\<rfloor>
    \<and> 0 \<le> w \<and> w \<le> target_size \<and> 0 \<le> h \<and> h \<le> target_size
    \<and> (img_w \<le> img_h \<longrightarrow> lb_w lb = w \<and> lb_h lb = target_size)
    \<and> (img_h < img_w \<and> w \<noteq> h \<longrightarrow> lb_w lb = target_size \<and> lb_h lb = h)
    \<and> lb_wpad lb = target_size - lb_w lb \<and> lb_hpad lb = target_size - lb_h lb"
proof -
  define m where "m = (if img_w > img_h then img_w else img_h)"
  define scale where "scale = fdiv (float_of_int target_size) (float_of_int m)"
  have m: "1 \<le> m" "m \<le> 2 ^ 31" "img_w \<le> m" "img_h \<le> m" using assms by (simp_all add: m_def)
  have sc: "scale = (if img_w > img_h then fdiv (float_of_int target_size) (float_of_int img_w)
                     else fdiv (float_of_int target_size) (float_of_int img_h))"
    by (simp add: scale_def m_def)
  from scaled_side [OF assms(1) m(3,2)] obtain w where
    w: "int_of_float (fmul (float_of_int img_w) scale) = Some w" "0 \<le> w" "w \<le> target_size"
      "w = \<lfloor>val (fmul (float_of_int img_w) scale)\<rfloor>"
      "w = \<lfloor>round_mag (round_mag (of_int img_w) * round_mag (480 / round_mag (of_int m)))\<rfloor>"
    unfolding scale_def by blast
  from scaled_side [OF assms(3) m(4,2)] obtain h where
    h: "int_of_float (fmul (float_of_int img_h) scale) = Some h" "0 \<le> h" "h \<le> target_size"
      "h = \<lfloor>val (fmul (float_of_int img_h) scale)\<rfloor>"
      "h = \<lfloor>round_mag (round_mag (of_int img_h) * round_mag (480 / round_mag (of_int m)))\<rfloor>"
    unfolding scale_def by blast
  define lb where "lb = \<lparr>lb_scale = scale, lb_w = (if w > h then target_size else w),
     lb_h = (if w > h then h else target_size),
     lb_wpad = target_size - (if w > h then target_size else w),
     lb_hpad = target_size - (if w > h then h else target_size)\<rparr>"
  have l: "letterbox img_w img_h = Some lb"
    using w(1) h(1) by (simp add: letterbox_def Let_def lb_def pad_base sc [symmetric])
  have mn: "lb_scale lb = std_min (fdiv (float_of_int target_size) (float_of_int img_w))
                       (fdiv (float_of_int target_size) (float_of_int img_h))"
    using scale_is_min [of img_w img_h] assms by (simp add: lb_def sc)
  have le: "w \<le> h" if "img_w \<le> img_h"
    unfolding w(5) h(5) using assms(1) that m(1) by (rule scaled_side_mono)
  have ge: "h \<le> w" if "img_h < img_w"
    unfolding w(5) h(5) using assms(3) that m(1) by (intro scaled_side_mono) simp_all
  have c1: "img_w \<le> img_h \<longrightarrow> lb_w lb = w \<and> lb_h lb = target_size"
    using le by (auto simp: lb_def)
  have c2: "img_h < img_w \<and> w \<noteq> h \<longrightarrow> lb_w lb = target_size \<and> lb_h lb = h"
    using ge by (auto simp: lb_def)
  have s: "lb_scale lb = scale" by (simp add: lb_def)
  have p: "lb_wpad lb = target_size - lb_w lb \<and> lb_hpad lb = target_size - lb_h lb"
    by (simp add: lb_def)
  show ?thesis using l mn w(1,2,3,4) h(1,2,3,4) c1 c2 p unfolding s [symmetric] by blast
qed

lemma letterbox_total:
  assumes "1 \<le> img_w" "img_w < 2 ^ 31" "1 \<le> img_h" "img_h < 2 ^ 31"
  shows "\<exists>lb. letterbox img_w img_h = Some lb"
proof -
  define m where "m = (if img_w > img_h then img_w else img_h)"
  have m: "1 \<le> m" "m \<le> 2 ^ 31" "img_w \<le> m" "img_h \<le> m" using assms by (simp_all add: m_def)
  have sc: "(if img_w > img_h then fdiv (float_of_int target_size) (float_of_int img_w)
             else fdiv (float_of_int target_size) (float_of_int img_h))
      = fdiv (float_of_int target_size) (float_of_int m)"
    by (simp add: m_def)
  from scaled_side [OF assms(1) m(3,2)] scaled_side [OF assms(3) m(4,2)]
  show ?thesis unfolding letterbox_def sc by (auto simp: Let_def)
qed

lemma letterbox_1920_1083:
  "letterbox 1920 1083
     = Some \<lparr>lb_scale = Fin (1 / 4), lb_w = 480, lb_h = 270, lb_wpad = 0, lb_hpad = 210\<rparr>"
  by (simp add: letterbox_eval f32_exact round32_quarter round32_1083_4 Let_def)

lemma letterbox_640_480:
  "letterbox 640 480
     = Some \<lparr>lb_scale = Fin (3 / 4), lb_w = 480, lb_h = 360, lb_wpad = 0, lb_hpad = 120\<rparr>"
  by (simp add: letterbox_eval f32_exact round32_three_quarters Let_def)

text \<open>When the two truncated sides are equal, the \<^verbatim>\<open>else\<close> branch forces the height, also
  for an image that is wider than high: 533 by 532 pixels give 479 and 479, and the
  letterbox is 479 by 480.\<close>

lemma letterbox_533_532:
  "letterbox 533 532
     = Some \<lparr>lb_scale = Fin (15108937 / 16777216), lb_w = 479, lb_h = 480,
             lb_wpad = 1, lb_hpad = 0\<rparr>"
  by (simp add: letterbox_eval f32_eval Let_def)

theorem letterbox_rounds_counterexample:
  "letterbox 1920 1083
     = Some \<lparr>lb_scale = Fin (1 / 4), lb_w = 480, lb_h = 270, lb_wpad = 0, lb_hpad = 210\<rparr>
   \<and> fmul (float_of_int 1083) (Fin (1 / 4)) = Fin (1083 / 4)
   \<and> round (1083 / 4 :: real) = 271
   \<and> (270 :: int) \<noteq> round (1083 / 4 :: real)"
proof -
  have "round (1083 / 4 :: real) = 271" by (simp add: round_def)
  moreover have "fmul (float_of_int 1083) (Fin (1 / 4)) = Fin (1083 / 4)"
    by (simp add: f32_exact round32_1083_4)
  ultimately show ?thesis using letterbox_1920_1083 by simp
qed

theorem letterbox_truncates_witness:
  "letterbox 1920 1083
     = Some \<lparr>lb_scale = Fin (1 / 4), lb_w = 480, lb_h = 270, lb_wpad = 0, lb_hpad = 210\<rparr>
   \<and> Fin (1 / 4) = std_min (fdiv (float_of_int target_size) (float_of_int 1920))
                       (fdiv (float_of_int target_size) (float_of_int 1083))
   \<and> int_of_float (fmul (float_of_int 1920) (Fin (1 / 4))) = Some 480
   \<and> int_of_float (fmul (float_of_int 1083) (Fin (1 / 4))) = Some 270
   \<and> (270 :: int) = \<lfloor>val (fmul (float_of_int 1083) (Fin (1 / 4)))\<rfloor>"
proof -
  have p: "(1::int) \<le> 1920" "(1920::int) < 2 ^ 31" "(1::int) \<le> 1083" "(1083::int) < 2 ^ 31"
    by simp_all
  from letterbox_truncates [OF p] obtain lb w h where
    l: "letterbox 1920 1083 = Some lb"
    and s: "lb_scale lb = std_min (fdiv (float_of_int target_size) (float_of_int 1920))
                       (fdiv (float_of_int target_size) (float_of_int 1083))"
    and w: "int_of_float (fmul (float_of_int 1920) (lb_scale lb)) = Some w"
    and h: "int_of_float (fmul (float_of_int 1083) (lb_scale lb)) = Some h"
      "h = \<lfloor>val (fmul (float_of_int 1083) (lb_scale lb))\<rfloor>"
    and c: "1083 < (1920::int) \<and> w \<noteq> h \<longrightarrow> lb_w lb = target_size \<and> lb_h lb = h"
    by blast
  have lb: "lb = \<lparr>lb_scale = Fin (1 / 4), lb_w = 480, lb_h = 270, lb_wpad = 0, lb_hpad = 210\<rparr>"
    using l letterbox_1920_1083 by simp
  have sc: "lb_scale lb = Fin (1 / 4)" by (simp add: lb)
  have w480: "w = 480" using w unfolding sc by (simp add: f32_exact int_of_float_def)
  have "w \<noteq> h"
  proof
    assume "w = h"
    then have "(480::int) = \<lfloor>val (fmul (float_of_int 1083) (Fin (1 / 4)))\<rfloor>"
      using h(2) w480 sc by simp
    then show False by (simp add: f32_exact round32_1083_4)
  qed
  then have "h = 270" using c lb by simp
  then show ?thesis using l lb s w h w480 sc by simp
qed

section \<open>Boxes of zero area in the NMS Filter\<close>

lemma zero_arith:
  assumes "is_zero a" "is_zero b"
  shows "is_zero (fadd a b)" "is_zero (fsub a b)" "fdiv a b = NaN"
  using assms
  by (auto simp: is_zero_def fadd_def fsub_def fneg_def fdiv_def is_inf_def round32_0 zero_of_def)

text \<open>
  C8. The filter divides by the union area with no guard. For a pair that reaches the
  comparison with two zero areas and a zero intersection area the denominator is a zero,
  the quotient is \<open>0 / 0\<close>, a NaN and not 0, and \<^verbatim>\<open>NaN > nms_threshold\<close> is false for every
  threshold: the kept candidate never suppresses the other one.
\<close>

theorem nms_zero_area_not_suppressed:
  assumes "is_zero (areas ! i)" "is_zero (areas ! j)"
    and "is_zero (intersection_area (faceobjects ! i) (faceobjects ! j))"
  shows "is_zero (union_area faceobjects areas i j)
    \<and> fdiv (intersection_area (faceobjects ! i) (faceobjects ! j))
         (union_area faceobjects areas i j) = NaN
    \<and> \<not> suppresses faceobjects areas nms_threshold agnostic i j"
proof -
  have u: "is_zero (union_area faceobjects areas i j)"
    unfolding union_area_def using assms by (intro zero_arith) 
  then have q: "fdiv (intersection_area (faceobjects ! i) (faceobjects ! j))
         (union_area faceobjects areas i j) = NaN"
    using assms(3) by (intro zero_arith)
  then show ?thesis using u by (simp add: suppresses_def fgt_def flt_def)
qed

definition point_a :: Object where
  "point_a = box 0 0 0 0 0 (7/8)"

definition point_b :: Object where
  "point_b = box 10 10 0 0 0 (3/4)"

lemma points_eval:
  "rect_area (rect point_a) = Fin 0" "rect_area (rect point_b) = Fin 0"
  "intersection_area point_b point_a = Fin 0"
  "union_area [point_a, point_b] [Fin 0, Fin 0] 1 0 = Fin 0"
  by (simp_all add: point_a_def point_b_def box_def nms_eval f32_exact)

theorem nms_zero_area_counterexample:
  "nms_sorted_bboxes [point_a, point_b] (Fin (1/2)) False = [0, 1]
   \<and> label point_b = label point_a
   \<and> map (\<lambda>ob. rect_area (rect ob)) [point_a, point_b] = [Fin 0, Fin 0]
   \<and> intersection_area point_b point_a = Fin 0
   \<and> union_area [point_a, point_b] [Fin 0, Fin 0] 1 0 = Fin 0
   \<and> fdiv (intersection_area point_b point_a) (union_area [point_a, point_b] [Fin 0, Fin 0] 1 0) = NaN
   \<and> NaN \<noteq> Fin 0
   \<and> nms_sorted_bboxes [point_a, point_b] (Fin (- 1)) False = [0, 1]
   \<and> nms_sorted_bboxes [box 0 0 1 1 0 (7/8), box 10 10 1 1 0 (3/4)] (Fin (- 1)) False = [0]"
  by (simp add: point_a_def point_b_def box_def nms_eval f32_exact Let_def)

theorem nms_zero_area_not_suppressed_witness:
  "is_zero ([Fin 0, Fin 0] ! 1) \<and> is_zero ([Fin 0, Fin 0] ! 0)
   \<and> is_zero (intersection_area ([point_a, point_b] ! 1) ([point_a, point_b] ! 0))
   \<and> is_zero (union_area [point_a, point_b] [Fin 0, Fin 0] 1 0)
   \<and> fdiv (intersection_area ([point_a, point_b] ! 1) ([point_a, point_b] ! 0))
         (union_area [point_a, point_b] [Fin 0, Fin 0] 1 0) = NaN
   \<and> \<not> suppresses [point_a, point_b] [Fin 0, Fin 0] (Fin (1/2)) False 1 0"
proof -
  have a: "is_zero ([Fin 0, Fin 0] ! 1)" "is_zero ([Fin 0, Fin 0] ! 0)"
    by (simp_all add: is_zero_def)
  have b: "is_zero (intersection_area ([point_a, point_b] ! 1) ([point_a, point_b] ! 0))"
    using points_eval(3) by (simp add: is_zero_def)
  from nms_zero_area_not_suppressed [OF a b, of "Fin (1/2)" False] a b
  show ?thesis by simp
qed

section \<open>Mapping back to the image\<close>

lemma detect_Some:
  assumes "detect forward fconf_thres fnms_thres bgr = Some (r, objects)"
  shows "r = 0 \<and> (\<exists>lb proposals sorted_proposals.
      letterbox (cols bgr) (rows bgr) = Some lb
    \<and> parse_yolov11_detections (mat_data (forward bgr lb)) fconf_thres
         (mat_h (forward bgr lb)) (mat_w (forward bgr lb)) (mat_h (forward bgr lb) - 4)
         (lb_w lb + c_div (lb_wpad lb) 2 + (lb_wpad lb - c_div (lb_wpad lb) 2))
         (lb_h lb + c_div (lb_hpad lb) 2 + (lb_hpad lb - c_div (lb_hpad lb) 2)) = Some proposals
    \<and> qsort_descent_inplace proposals = Some sorted_proposals
    \<and> objects = map (\<lambda>k. map_back (lb_scale lb) (lb_wpad lb) (lb_hpad lb) (cols bgr) (rows bgr)
                          (sorted_proposals ! k))
                  (nms_sorted_bboxes sorted_proposals fnms_thres False))"
  using assms by (auto simp: detect_def Let_def split: option.splits)







definition photo :: "unit Mat" where
  "photo = \<lparr>cols = 640, rows = 480, pixels = ()\<rparr>"

definition one_anchor_net :: "f32 list \<Rightarrow> unit Mat \<Rightarrow> Letterbox \<Rightarrow> ncnn_Mat" where
  "one_anchor_net row bgr lb = \<lparr>mat_w = 1, mat_h = 5, mat_data = row\<rparr>"

definition faint_row :: "f32 list" where
  "faint_row = [Fin 120, Fin 195, Fin 60, Fin 90, Fin (1/8)]"

lemma qsort_single: "qsort_descent_inplace [ob] = Some [ob]"
  by (simp add: qsort_eval c_div_def)

lemma nms_single: "nms_sorted_bboxes [ob] thr agnostic = [0]"
  by (simp add: nms_sorted_bboxes_def nms_step_def nms_keep_def)

lemma plain_parsed:
  "parse_yolov11_detections plain_row (Fin (1/4)) 5 1 1 480 480 = Some [plain_box]"
  by (simp add: plain_row_def plain_box_def decoder_eval f32_exact Let_def)

lemma faint_parsed:
  "parse_yolov11_detections faint_row (Fin (1/4)) 5 1 1 480 480 = Some []"
  by (simp add: faint_row_def decoder_eval f32_exact Let_def)

lemma detect_photo:
  "detect (one_anchor_net plain_row) (Fin (1/4)) (Fin (1/2)) photo
     = Some (0, [\<lparr>rect = \<lparr>rect_x = Fin 120, rect_y = Fin 120, rect_width = Fin 80,
                          rect_height = Fin 120\<rparr>, label = 0, prob = Fin (7/8)\<rparr>])"
  by (simp add: detect_def photo_def one_anchor_net_def letterbox_640_480 c_div_def
      plain_parsed qsort_single nms_single plain_box_mapped [unfolded c_div_def])

lemma detect_faint:
  "detect (one_anchor_net faint_row) (Fin (1/4)) (Fin (1/2)) photo = Some (0, [])"
  by (simp add: detect_def photo_def one_anchor_net_def letterbox_640_480 c_div_def
      faint_parsed qsort_descent_inplace_def nms_sorted_bboxes_def)












section \<open>The result of detect\<close>

text \<open>
  C10. Whenever \<^verbatim>\<open>detect\<close> returns, its \<^verbatim>\<open>int\<close> result is 0, whatever the image, the
  tensor and the object list are. It does return, with 0, for every image of at least one
  pixel and every output tensor that has no anchor or has at least five rows and fills
  its buffer; on a tensor without anchors, as the empty one that a failed extraction
  leaves, it returns 0 with the empty object list.
\<close>

theorem detect_returns_zero:
  "(detect forward fconf_thres fnms_thres bgr = Some (r, objects) \<longrightarrow> r = 0)
   \<and> (1 \<le> cols bgr \<and> cols bgr < 2 ^ 31 \<and> 1 \<le> rows bgr \<and> rows bgr < 2 ^ 31
       \<and> (\<forall>lb. letterbox (cols bgr) (rows bgr) = Some lb \<longrightarrow>
               mat_w (forward bgr lb) \<le> 0
             \<or> 5 \<le> mat_h (forward bgr lb)
               \<and> mat_h (forward bgr lb) * mat_w (forward bgr lb)
                    \<le> int (length (mat_data (forward bgr lb))))
      \<longrightarrow> (\<exists>objs. detect forward fconf_thres fnms_thres bgr = Some (0, objs)))
   \<and> (1 \<le> cols bgr \<and> cols bgr < 2 ^ 31 \<and> 1 \<le> rows bgr \<and> rows bgr < 2 ^ 31
       \<and> (\<forall>lb. letterbox (cols bgr) (rows bgr) = Some lb \<longrightarrow> mat_w (forward bgr lb) \<le> 0)
      \<longrightarrow> detect forward fconf_thres fnms_thres bgr = Some (0, []))"
proof (intro conjI impI)
  assume "detect forward fconf_thres fnms_thres bgr = Some (r, objects)"
  then show "r = 0" using detect_Some by blast
next
  assume a: "1 \<le> cols bgr \<and> cols bgr < 2 ^ 31 \<and> 1 \<le> rows bgr \<and> rows bgr < 2 ^ 31
       \<and> (\<forall>lb. letterbox (cols bgr) (rows bgr) = Some lb \<longrightarrow>
               mat_w (forward bgr lb) \<le> 0
             \<or> 5 \<le> mat_h (forward bgr lb)
               \<and> mat_h (forward bgr lb) * mat_w (forward bgr lb)
                    \<le> int (length (mat_data (forward bgr lb))))"
  then obtain lb where lb: "letterbox (cols bgr) (rows bgr) = Some lb"
    using letterbox_total [of "cols bgr" "rows bgr"] by blast
  define out where "out = forward bgr lb"
  have s: "mat_w out \<le> 0 \<or> 5 \<le> mat_h out \<and> mat_h out * mat_w out \<le> int (length (mat_data out))"
    using a lb by (simp add: out_def)
  from parse_returns [OF s] obtain proposals where
    p: "parse_yolov11_detections (mat_data out) fconf_thres (mat_h out) (mat_w out) (mat_h out - 4)
          (lb_w lb + c_div (lb_wpad lb) 2 + (lb_wpad lb - c_div (lb_wpad lb) 2))
          (lb_h lb + c_div (lb_hpad lb) 2 + (lb_hpad lb - c_div (lb_hpad lb) 2)) = Some proposals"
    by blast
  obtain sorted_proposals where q: "qsort_descent_inplace proposals = Some sorted_proposals"
    using qsort_descent_inplace_total by blast
  show "\<exists>objs. detect forward fconf_thres fnms_thres bgr = Some (0, objs)"
    using lb p q by (simp add: detect_def Let_def out_def)
next
  assume a: "1 \<le> cols bgr \<and> cols bgr < 2 ^ 31 \<and> 1 \<le> rows bgr \<and> rows bgr < 2 ^ 31
       \<and> (\<forall>lb. letterbox (cols bgr) (rows bgr) = Some lb \<longrightarrow> mat_w (forward bgr lb) \<le> 0)"
  then obtain lb where lb: "letterbox (cols bgr) (rows bgr) = Some lb"
    using letterbox_total [of "cols bgr" "rows bgr"] by blast
  then have "mat_w (forward bgr lb) \<le> 0" using a by blast
  then show "detect forward fconf_thres fnms_thres bgr = Some (0, [])"
    using lb by (simp add: detect_def Let_def parse_no_anchor qsort_descent_inplace_def
        nms_sorted_bboxes_def)
qed

text \<open>The tensor that a failed extraction leaves: no anchor, no row, no data.\<close>

definition empty_net :: "unit Mat \<Rightarrow> Letterbox \<Rightarrow> ncnn_Mat" where
  "empty_net bgr lb = \<lparr>mat_w = 0, mat_h = 0, mat_data = []\<rparr>"

theorem detect_returns_zero_witness:
  "detect empty_net (Fin (1/4)) (Fin (1/2)) photo = Some (0, [])
   \<and> detect (one_anchor_net faint_row) (Fin (1/4)) (Fin (1/2)) photo = Some (0, [])
   \<and> detect (one_anchor_net plain_row) (Fin (1/4)) (Fin (1/2)) photo
     = Some (0, [\<lparr>rect = \<lparr>rect_x = Fin 120, rect_y = Fin 120, rect_width = Fin 80,
                          rect_height = Fin 120\<rparr>, label = 0, prob = Fin (7/8)\<rparr>])"
proof -
  have pre: "1 \<le> cols photo \<and> cols photo < 2 ^ 31 \<and> 1 \<le> rows photo \<and> rows photo < 2 ^ 31
       \<and> (\<forall>lb. letterbox (cols photo) (rows photo) = Some lb \<longrightarrow> mat_w (empty_net photo lb) \<le> 0)"
    by (simp add: photo_def empty_net_def)
  from detect_returns_zero [of empty_net "Fin (1/4)" "Fin (1/2)" photo 0 "[]"] pre
  have "detect empty_net (Fin (1/4)) (Fin (1/2)) photo = Some (0, [])"
    by blast
  then show ?thesis using detect_faint detect_photo by simp
qed

end
